theory Spec2Isabelle
  imports Complex_Main "HOL-Library.Word"
begin

section \<open>Python values used by the voice assistant\<close>

text \<open>
  Conventions of the embedding.
  \<^item> A Python \<open>float\<close> (durations in seconds, audio levels) is an exact rational
    number; rounding of the machine representation is not modelled.
  \<^item> A Python \<open>str\<close> is a \<open>string\<close> whose characters are read as the code points
    below 256; \<open>lower\<close> and \<open>strip\<close> are Python's on that range.
  \<^item> A Python \<open>bytes\<close> value is a list of 8-bit words.
  \<^item> Log lines are not part of the state.
\<close>

type_synonym bytes = "8 word list"

datatype py_error = IndexError | ZeroDivisionError | RuntimeError

datatype 'a outcome = Raised py_error | Returned 'a | Blocked

text \<open>\<open>int(x)\<close> on a float truncates toward zero.\<close>

definition py_int :: "rat \<Rightarrow> int" where
  "py_int x = (if 0 \<le> x then \<lfloor>x\<rfloor> else \<lceil>x\<rceil>)"

text \<open>The slice \<open>xs[i:]\<close>: a negative \<open>i\<close> counts from the end and is clamped at 0.\<close>

definition py_slice_from :: "'a list \<Rightarrow> int \<Rightarrow> 'a list" where
  "py_slice_from xs i =
     (if i < 0 then drop (nat (max (int (length xs) + i) 0)) xs else drop (nat i) xs)"

text \<open>\<open>str.lower\<close> on the code points below 256: A-Z and the accented capitals
  0xC0-0xDE (without the multiplication sign 0xD7) move up by 32.\<close>

definition lower_chr :: "char \<Rightarrow> char" where
  "lower_chr c =
     (let n = (of_char c :: nat)
      in if (65 \<le> n \<and> n \<le> 90) \<or> (192 \<le> n \<and> n \<le> 222 \<and> n \<noteq> 215)
         then char_of (n + 32) else c)"

definition py_lower :: "string \<Rightarrow> string" where
  "py_lower s = map lower_chr s"

text \<open>\<open>str.isspace\<close> on the code points below 256.\<close>

definition is_space :: "char \<Rightarrow> bool" where
  "is_space c =
     (let n = (of_char c :: nat)
      in (9 \<le> n \<and> n \<le> 13) \<or> (28 \<le> n \<and> n \<le> 32) \<or> n = 133 \<or> n = 160)"

definition py_strip :: "string \<Rightarrow> string" where
  "py_strip s = rev (dropWhile is_space (rev (dropWhile is_space s)))"

section \<open>Conversation history (src/ai/conversation.py)\<close>

record message =
  role :: string
  content :: string
  timestamp :: "string option"

record conversation_manager =
  system_prompt :: string
  max_history :: int
  messages :: "message list"

text \<open>\<open>ConversationManager.__init__\<close>: \<open>system_prompt or config.system_prompt\<close> falls
  back to the configured prompt when the argument is \<open>None\<close> or empty; the system message
  is stored only when the resulting prompt is non-empty.\<close>

definition cm_init :: "string option \<Rightarrow> string \<Rightarrow> int \<Rightarrow> conversation_manager" where
  "cm_init sp config_prompt mh =
     (let p = (case sp of None \<Rightarrow> config_prompt
                | Some s \<Rightarrow> if s = [] then config_prompt else s)
      in \<lparr>system_prompt = p, max_history = mh,
          messages = (if p \<noteq> [] then [\<lparr>role = ''system'', content = p, timestamp = None\<rparr>]
                      else [])\<rparr>)"

text \<open>The time stamp is \<open>datetime.now().isoformat()\<close>, an argument here. Persisting to
  disk does not touch the message list and its failures are swallowed by \<open>_auto_save\<close>.\<close>

definition add_user_message :: "conversation_manager \<Rightarrow> string \<Rightarrow> string \<Rightarrow> conversation_manager" where
  "add_user_message cm c now =
     cm\<lparr>messages := messages cm @ [\<lparr>role = ''user'', content = c, timestamp = Some now\<rparr>]\<rparr>"

definition add_assistant_message :: "conversation_manager \<Rightarrow> string \<Rightarrow> string \<Rightarrow> conversation_manager" where
  "add_assistant_message cm c now =
     cm\<lparr>messages := messages cm @ [\<lparr>role = ''assistant'', content = c, timestamp = Some now\<rparr>]\<rparr>"

text \<open>\<open>messages_for_llm\<close>: the whole list when it is short enough, otherwise element 0
  followed by the slice \<open>_messages[-(max_history):]\<close>. Element 0 of an empty list raises.\<close>

definition messages_for_llm :: "conversation_manager \<Rightarrow> py_error + message list" where
  "messages_for_llm cm =
     (if int (length (messages cm)) \<le> max_history cm + 1 then Inr (messages cm)
      else (case messages cm of
              [] \<Rightarrow> Inl IndexError
            | m0 # _ \<Rightarrow> Inr (m0 # py_slice_from (messages cm) (- max_history cm))))"

text \<open>A sequence of calls of the two adding methods.\<close>

datatype cm_call = AddUser string string | AddAssistant string string

fun cm_apply :: "conversation_manager \<Rightarrow> cm_call \<Rightarrow> conversation_manager" where
  "cm_apply cm (AddUser c now) = add_user_message cm c now"
| "cm_apply cm (AddAssistant c now) = add_assistant_message cm c now"

definition cm_run :: "conversation_manager \<Rightarrow> cm_call list \<Rightarrow> conversation_manager" where
  "cm_run cm calls = foldl cm_apply cm calls"

text \<open>The message a call appends.\<close>

fun cm_added :: "cm_call \<Rightarrow> message" where
  "cm_added (AddUser c now) = \<lparr>role = ''user'', content = c, timestamp = Some now\<rparr>"
| "cm_added (AddAssistant c now) = \<lparr>role = ''assistant'', content = c, timestamp = Some now\<rparr>"

section \<open>Audio recorder with voice-activity endpointing (src/audio/recorder.py)\<close>

text \<open>
  One block delivered by the input stream to \<open>audio_callback\<close>: the 16-bit samples as
  bytes, the mean absolute amplitude, and what \<open>webrtcvad\<close> answers for the block
  (\<open>None\<close> when \<open>vad.is_speech\<close> raises). The three are inputs of the model.
\<close>

record frame =
  audio_bytes :: bytes
  level :: rat
  vad :: "bool option"

text \<open>Effects of a recording that are visible outside the recorder, in order: the input
  stream being opened and the calls of the callbacks.\<close>

datatype rec_effect = StreamOpened | LevelReported rat | SpeechStart | SpeechEnd

record recorder =
  sample_rate :: int
  channels :: int
  frame_duration_ms :: int
  silence_duration :: rat
  level_callback :: bool
  is_recording :: bool
  audio_buffer :: "bytes list"
  effects :: "rec_effect list"

text \<open>The arguments of \<open>record\<close>; the two flags say whether a callback was passed.\<close>

record record_args =
  max_duration :: rat
  on_speech_start :: bool
  on_speech_end :: bool

text \<open>The local variables of \<open>record\<close> that \<open>audio_callback\<close> updates.\<close>

record vad_state =
  speech_started :: bool
  silence_frames :: int
  frame_count :: int

definition init_vad :: vad_state where
  "init_vad = \<lparr>speech_started = False, silence_frames = 0, frame_count = 0\<rparr>"

text \<open>The result of \<open>_create_wav\<close>: the header fields and the joined chunks.\<close>

record wav =
  nchannels :: int
  sampwidth :: int
  framerate :: int
  wav_data :: bytes

definition create_wav :: "recorder \<Rightarrow> bytes list \<Rightarrow> wav" where
  "create_wav r audio_chunks =
     \<lparr>nchannels = channels r, sampwidth = 2, framerate = sample_rate r,
      wav_data = concat audio_chunks\<rparr>"

definition frames_for_silence :: "recorder \<Rightarrow> int" where
  "frames_for_silence r = py_int (silence_duration r * 1000 / of_int (frame_duration_ms r))"

definition max_frames :: "recorder \<Rightarrow> record_args \<Rightarrow> int" where
  "max_frames r a = py_int (max_duration a * 1000 / of_int (frame_duration_ms r))"

text \<open>The VAD check with its fallback: when the classifier raises, the block counts as
  speech exactly when its level exceeds 0.01.\<close>

definition is_speech :: "frame \<Rightarrow> bool" where
  "is_speech f = (case vad f of Some b \<Rightarrow> b | None \<Rightarrow> 1 / 100 < level f)"

definition report_level :: "recorder \<Rightarrow> frame \<Rightarrow> recorder" where
  "report_level r f =
     (if level_callback r then r\<lparr>effects := effects r @ [LevelReported (min (level f * 10) 1)]\<rparr>
      else r)"

text \<open>The branch \<open>if is_speech\<close>.\<close>

definition on_speech :: "bool \<Rightarrow> recorder \<times> vad_state \<Rightarrow> frame \<Rightarrow> recorder \<times> vad_state" where
  "on_speech cb s f =
     (let (r, v) = s;
          (r1, v1) = (if \<not> speech_started v
                      then ((if cb then r\<lparr>effects := effects r @ [SpeechStart]\<rparr> else r),
                            v\<lparr>speech_started := True\<rparr>)
                      else (r, v))
      in (r1\<lparr>audio_buffer := audio_buffer r1 @ [audio_bytes f]\<rparr>, v1\<lparr>silence_frames := 0\<rparr>))"

text \<open>The branch \<open>elif speech_started\<close>.\<close>

definition on_trailing_silence :: "int \<Rightarrow> recorder \<times> vad_state \<Rightarrow> frame \<Rightarrow> recorder \<times> vad_state" where
  "on_trailing_silence ffs s f =
     (let (r, v) = s;
          v1 = v\<lparr>silence_frames := silence_frames v + 1\<rparr>;
          r1 = r\<lparr>audio_buffer := audio_buffer r @ [audio_bytes f]\<rparr>
      in ((if ffs \<le> silence_frames v1 then r1\<lparr>is_recording := False\<rparr> else r1), v1))"

text \<open>The last three lines of the callback.\<close>

definition count_frame :: "int \<Rightarrow> recorder \<times> vad_state \<Rightarrow> recorder \<times> vad_state" where
  "count_frame mf s =
     (let (r, v) = s;
          v1 = v\<lparr>frame_count := frame_count v + 1\<rparr>
      in ((if mf \<le> frame_count v1 then r\<lparr>is_recording := False\<rparr> else r), v1))"

datatype 'a callback_result = CallbackAbort | Continue 'a

definition audio_callback ::
  "int \<Rightarrow> int \<Rightarrow> bool \<Rightarrow> recorder \<times> vad_state \<Rightarrow> frame \<Rightarrow> (recorder \<times> vad_state) callback_result" where
  "audio_callback ffs mf cb s f =
     (if \<not> is_recording (fst s) then CallbackAbort
      else
        let s1 = (report_level (fst s) f, snd s);
            s2 = (if is_speech f then on_speech cb s1 f
                  else if speech_started (snd s1) then on_trailing_silence ffs s1 f
                  else s1)
        in Continue (count_frame mf s2))"

definition recorder_stop :: "recorder \<Rightarrow> recorder" where
  "recorder_stop r = r\<lparr>is_recording := False\<rparr>"

text \<open>What reaches a recording while its input stream is open: a block from the device,
  or a call of \<open>stop\<close> from outside. After an aborted callback the stream delivers
  nothing more.\<close>

datatype mic_event = Frame frame | StopRequest

fun run_stream ::
  "int \<Rightarrow> int \<Rightarrow> bool \<Rightarrow> recorder \<times> vad_state \<Rightarrow> mic_event list \<Rightarrow> recorder \<times> vad_state" where
  "run_stream ffs mf cb s [] = s"
| "run_stream ffs mf cb s (StopRequest # es) = run_stream ffs mf cb (recorder_stop (fst s), snd s) es"
| "run_stream ffs mf cb s (Frame f # es) =
     (case audio_callback ffs mf cb s f of
        CallbackAbort \<Rightarrow> s
      | Continue s' \<Rightarrow> run_stream ffs mf cb s' es)"

text \<open>
  \<open>AudioRecorder.record\<close>. The guard and the two divisions come before the \<open>try\<close>, so
  a zero frame duration raises with the flag left set. \<open>device_ok = False\<close> is the input
  stream failing to open, caught by \<open>except Exception\<close>. \<open>Blocked\<close> is the polling loop
  still waiting when the given events are used up.
\<close>

definition recorder_record ::
  "recorder \<Rightarrow> record_args \<Rightarrow> bool \<Rightarrow> mic_event list \<Rightarrow> wav option outcome \<times> recorder" where
  "recorder_record r a device_ok es =
     (if is_recording r then (Returned None, r)
      else
        let r1 = r\<lparr>is_recording := True, audio_buffer := []\<rparr>
        in if frame_duration_ms r1 = 0 then (Raised ZeroDivisionError, r1)
           else if \<not> device_ok then (Returned None, r1\<lparr>is_recording := False\<rparr>)
           else
             let r2 = fst (run_stream (frames_for_silence r1) (max_frames r1 a) (on_speech_start a)
                             (r1\<lparr>effects := effects r1 @ [StreamOpened]\<rparr>, init_vad) es)
             in if is_recording r2 then (Blocked, r2)
                else
                  let r3 = (if on_speech_end a then r2\<lparr>effects := effects r2 @ [SpeechEnd]\<rparr> else r2)
                  in (Returned (if audio_buffer r3 \<noteq> [] then Some (create_wav r3 (audio_buffer r3))
                                else None),
                      r3\<lparr>is_recording := False\<rparr>))"

text \<open>An event that is a block from the device; an event without speech.\<close>

fun is_frame :: "mic_event \<Rightarrow> bool" where
  "is_frame (Frame f) = True"
| "is_frame StopRequest = False"

fun silent_event :: "mic_event \<Rightarrow> bool" where
  "silent_event (Frame f) = (\<not> is_speech f)"
| "silent_event StopRequest = True"

text \<open>
  Sample values: the recorder as \<open>AudioRecorder()\<close> builds it from its defaults, and
  three blocks.
\<close>

definition default_recorder :: recorder where
  "default_recorder =
     \<lparr>sample_rate = 16000, channels = 1, frame_duration_ms = 30, silence_duration = 3 / 2,
      level_callback = False, is_recording = False, audio_buffer = [], effects = []\<rparr>"

definition speech_frame :: frame where
  "speech_frame = \<lparr>audio_bytes = [1, 0], level = 1 / 5, vad = Some True\<rparr>"

definition quiet_frame :: frame where
  "quiet_frame = \<lparr>audio_bytes = [0, 0], level = 0, vad = Some False\<rparr>"

definition loud_unclassified_frame :: frame where
  "loud_unclassified_frame = \<lparr>audio_bytes = [7, 0], level = 1 / 2, vad = None\<rparr>"

section \<open>Text to speech and playback (src/audio/tts.py)\<close>

text \<open>
  The playback sink. \<open>music_busy\<close> is the state of the \<open>pygame\<close> mixer, \<open>spoken\<close> lists
  the texts whose audio was handed to the mixer, with the voice, and \<open>playbacks\<close> counts
  the playback attempts; the last two are there to state properties.
\<close>

record tts =
  voice_en :: string
  voice_fr :: string
  tts_is_speaking :: bool
  tts_stop_event :: bool
  music_busy :: bool
  spoken :: "(string \<times> string) list"
  playbacks :: nat

text \<open>
  What the sink depends on: the two optional imports, the synthesis service (its joined
  audio chunks, empty when it raises), and, for the playback attempt with a given number,
  whether loading or playing raises and whether \<open>stop\<close> is called while \<open>speak\<close> waits.
\<close>

record tts_env =
  has_edge_tts :: bool
  has_pygame :: bool
  edge_tts :: "string \<Rightarrow> string \<Rightarrow> bytes"
  playback_fails :: "nat \<Rightarrow> bool"
  stop_during :: "nat \<Rightarrow> bool"

definition get_voice_for_language :: "tts \<Rightarrow> string \<Rightarrow> string" where
  "get_voice_for_language s lang = (if take 2 lang = ''fr'' then voice_fr s else voice_en s)"

definition synthesize :: "tts_env \<Rightarrow> tts \<Rightarrow> string \<Rightarrow> string \<Rightarrow> bytes" where
  "synthesize env s text voice =
     (if \<not> has_edge_tts env then []
      else edge_tts env text (if voice = [] then voice_en s else voice))"

text \<open>\<open>TextToSpeech.stop\<close>: the mixer call raises without \<open>pygame\<close> and the bare
  \<open>except\<close> swallows it.\<close>

definition tts_stop :: "tts_env \<Rightarrow> tts \<Rightarrow> tts" where
  "tts_stop env s =
     s\<lparr>tts_stop_event := True,
       music_busy := (if has_pygame env then False else music_busy s),
       tts_is_speaking := False\<rparr>"

text \<open>\<open>TextToSpeech.speak\<close>. With \<open>wait\<close>, the polling loop ends when the mixer is done
  or when a call of \<open>stop\<close> arrives.\<close>

definition speak :: "tts_env \<Rightarrow> tts \<Rightarrow> string \<Rightarrow> string \<Rightarrow> bool \<Rightarrow> tts" where
  "speak env s text lang wait =
     (if \<not> has_pygame env then s
      else
        let voice = get_voice_for_language s lang;
            audio_data = synthesize env s text voice
        in if audio_data = [] then s
           else
             let k = playbacks s;
                 s1 = s\<lparr>tts_stop_event := False, tts_is_speaking := True, playbacks := Suc k\<rparr>
             in if playback_fails env k then s1\<lparr>tts_is_speaking := False\<rparr>
                else
                  let s2 = s1\<lparr>music_busy := True, spoken := spoken s1 @ [(text, voice)]\<rparr>
                  in if wait
                     then (if stop_during env k then (tts_stop env s2)\<lparr>tts_is_speaking := False\<rparr>
                           else s2\<lparr>music_busy := False, tts_is_speaking := False\<rparr>)
                     else s2\<lparr>tts_is_speaking := False\<rparr>)"

definition sentence_endings :: string where
  "sentence_endings = ''.!?;''"

text \<open>The scan \<open>for i, char in enumerate(buffer)\<close> up to its \<open>break\<close>: the index of the
  first sentence ending.\<close>

fun first_ending :: "string \<Rightarrow> nat option" where
  "first_ending [] = None"
| "first_ending (c # cs) =
     (if c \<in> set sentence_endings then Some 0 else map_option Suc (first_ending cs))"

text \<open>The loop over the chunks of \<open>speak_streaming\<close>. The result is the sink and the
  buffer left, or \<open>None\<close> for the buffer when the method returned from inside the loop.\<close>

fun streaming_loop ::
  "tts_env \<Rightarrow> string \<Rightarrow> tts \<Rightarrow> string \<Rightarrow> string list \<Rightarrow> tts \<times> string option" where
  "streaming_loop env lang s buffer [] = (s, Some buffer)"
| "streaming_loop env lang s buffer (chunk # chunks) =
     (let buffer1 = buffer @ chunk
      in case first_ending buffer1 of
           None \<Rightarrow> streaming_loop env lang s buffer1 chunks
         | Some i \<Rightarrow>
             let sentence = py_strip (take (i + 1) buffer1);
                 buffer2 = drop (i + 1) buffer1
             in if sentence \<noteq> []
                then let s1 = speak env s sentence lang True
                     in if tts_stop_event s1 then (s1, None)
                        else streaming_loop env lang s1 buffer2 chunks
                else streaming_loop env lang s buffer2 chunks)"

definition speak_streaming :: "tts_env \<Rightarrow> tts \<Rightarrow> string list \<Rightarrow> string \<Rightarrow> tts" where
  "speak_streaming env s text_generator lang =
     (case streaming_loop env lang s [] text_generator of
        (s1, None) \<Rightarrow> s1
      | (s1, Some buffer) \<Rightarrow>
          if py_strip buffer \<noteq> [] then speak env s1 (py_strip buffer) lang True else s1)"

text \<open>The reading of the specification, for comparison: the text cut after every sentence
  ending, each piece stripped, empty pieces left out.\<close>

fun cut_sentences :: "string \<Rightarrow> string \<Rightarrow> string list" where
  "cut_sentences acc [] = [acc]"
| "cut_sentences acc (c # cs) =
     (if c \<in> set sentence_endings then (acc @ [c]) # cut_sentences [] cs
      else cut_sentences (acc @ [c]) cs)"

definition spec_sentences :: "string \<Rightarrow> string list" where
  "spec_sentences text = filter (\<lambda>u. u \<noteq> []) (map py_strip (cut_sentences [] text))"

text \<open>The loop of \<open>speak_streaming\<close> without the sink: the sentences it cuts, in
  order, when no playback is interrupted, and the buffer it leaves.\<close>

fun loop_sentences :: "string \<Rightarrow> string list \<Rightarrow> string list \<times> string" where
  "loop_sentences buffer [] = ([], buffer)"
| "loop_sentences buffer (chunk # chunks) =
     (let buffer1 = buffer @ chunk
      in case first_ending buffer1 of
           None \<Rightarrow> loop_sentences buffer1 chunks
         | Some i \<Rightarrow>
             let sentence = py_strip (take (i + 1) buffer1);
                 rest = loop_sentences (drop (i + 1) buffer1) chunks
             in ((if sentence \<noteq> [] then [sentence] else []) @ fst rest, snd rest))"

text \<open>The texts handed to the mixer between two states of the sink.\<close>

definition new_utterances :: "tts \<Rightarrow> tts \<Rightarrow> string list" where
  "new_utterances s s' = map fst (drop (length (spoken s)) (spoken s'))"

text \<open>Sample values: a sink as \<open>TextToSpeech()\<close> builds it, and a world in which both
  libraries are present, synthesis gives one byte per character, and nothing fails or
  interrupts.\<close>

definition default_tts :: tts where
  "default_tts =
     \<lparr>voice_en = ''en-US-AriaNeural'', voice_fr = ''fr-FR-DeniseNeural'',
      tts_is_speaking = False, tts_stop_event = False, music_busy = False,
      spoken = [], playbacks = 0\<rparr>"

definition quiet_world :: tts_env where
  "quiet_world =
     \<lparr>has_edge_tts = True, has_pygame = True,
      edge_tts = (\<lambda>text voice. map (\<lambda>c. 1) text),
      playback_fails = (\<lambda>k. False), stop_during = (\<lambda>k. False)\<rparr>"

section \<open>Wake word detection (src/audio/wake_word.py)\<close>

text \<open>
  What a call of the activation callback does on the audio thread, where \<open>_listen_loop\<close>
  makes it: it returns, or it raises. The detector takes any callable.
\<close>

datatype on_wake = Returns | Raises py_error

text \<open>\<open>porcupine\<close> says whether the engine was created; \<open>ww_callback\<close> is the callable
  that \<open>start\<close> stored, if any; \<open>activations\<close> counts the calls of the callback.\<close>

record wake_word_detector =
  porcupine :: bool
  ww_is_listening :: bool
  ww_stop_event :: bool
  ww_callback :: "on_wake option"
  activations :: nat

definition ww_start :: "wake_word_detector \<Rightarrow> on_wake \<Rightarrow> wake_word_detector" where
  "ww_start d on_wake_cb =
     (if \<not> porcupine d then d
      else if ww_is_listening d then d
      else d\<lparr>ww_callback := Some on_wake_cb, ww_stop_event := False, ww_is_listening := True\<rparr>)"

definition ww_stop :: "wake_word_detector \<Rightarrow> wake_word_detector" where
  "ww_stop d = d\<lparr>ww_stop_event := True, ww_is_listening := False\<rparr>"

text \<open>
  The callback of \<open>_listen_loop\<close> on one block, given the keyword index that
  \<open>porcupine.process\<close> answers for it. It raises \<open>CallbackAbort\<close> when the stop event is
  set; on a match it calls the stored callable, and an exception of that call leaves the
  callback.
\<close>

datatype ww_callback_result =
  WwAbort | WwContinue wake_word_detector | WwRaised py_error wake_word_detector

definition ww_audio_callback :: "wake_word_detector \<Rightarrow> int \<Rightarrow> ww_callback_result" where
  "ww_audio_callback d keyword_index =
     (if ww_stop_event d then WwAbort
      else if 0 \<le> keyword_index
      then (case ww_callback d of
              None \<Rightarrow> WwContinue d
            | Some Returns \<Rightarrow> WwContinue (d\<lparr>activations := Suc (activations d)\<rparr>)
            | Some (Raises e) \<Rightarrow> WwRaised e (d\<lparr>activations := Suc (activations d)\<rparr>))
      else WwContinue d)"

datatype ww_event = Block int | StopListening

text \<open>
  An exception that leaves the callback aborts the input stream: no later block is
  delivered. The thread goes on polling the stop event, so the listening flag stays as
  it is until \<open>stop\<close> is called.
\<close>

fun stream_dead :: "wake_word_detector \<Rightarrow> ww_event list \<Rightarrow> wake_word_detector" where
  "stream_dead d [] = d"
| "stream_dead d (StopListening # es) = stream_dead (ww_stop d) es"
| "stream_dead d (Block i # es) = stream_dead d es"

text \<open>The background thread: it leaves its loop when the stop event is set, and the
  \<open>finally\<close> clears the listening flag.\<close>

fun listen_loop :: "wake_word_detector \<Rightarrow> ww_event list \<Rightarrow> wake_word_detector" where
  "listen_loop d [] = d"
| "listen_loop d (StopListening # es) = listen_loop (ww_stop d) es"
| "listen_loop d (Block i # es) =
     (case ww_audio_callback d i of
        WwAbort \<Rightarrow> d\<lparr>ww_is_listening := False\<rparr>
      | WwContinue d' \<Rightarrow> listen_loop d' es
      | WwRaised e d' \<Rightarrow> stream_dead d' es)"

text \<open>A block on which the keyword is recognised.\<close>

fun is_match :: "ww_event \<Rightarrow> bool" where
  "is_match (Block i) = (0 \<le> i)"
| "is_match StopListening = False"

definition idle_detector :: wake_word_detector where
  "idle_detector =
     \<lparr>porcupine = True, ww_is_listening = False, ww_stop_event = False, ww_callback = None,
      activations = 0\<rparr>"

section \<open>The assistant (src/assistant.py)\<close>

record assistant =
  running :: bool
  listening :: bool
  recorder :: recorder
  tts :: tts
  conversation :: conversation_manager
  wake_word :: "wake_word_detector option"

text \<open>The collaborators of one turn: the input device, the transcription and language
  model services, the clock, and the world of the playback sink.\<close>

record collaborators =
  device_ok :: bool
  transcribe :: "wav \<Rightarrow> string \<times> string"
  stream_chat :: "message list \<Rightarrow> string list"
  clock :: "nat \<Rightarrow> string"
  tts_world :: tts_env

definition exit_commands :: "string list" where
  "exit_commands =
     [''exit'', ''quit'', ''stop'', ''goodbye'', ''bye'', ''arr'' @ [CHR 0xEA] @ ''te'',
      ''au revoir'']"

definition stop_speaking_commands :: "string list" where
  "stop_speaking_commands =
     [''stop'', ''arr'' @ [CHR 0xEA] @ ''te'', ''tais-toi'', ''shut up'']"

definition assistant_stop :: "tts_env \<Rightarrow> assistant \<Rightarrow> assistant" where
  "assistant_stop env s =
     (let s1 = s\<lparr>running := False\<rparr>;
          s2 = s1\<lparr>tts := tts_stop env (tts s1)\<rparr>
      in case wake_word s2 of
           None \<Rightarrow> s2
         | Some d \<Rightarrow> s2\<lparr>wake_word := Some (ww_stop d)\<rparr>)"

definition say_goodbye :: "tts_env \<Rightarrow> assistant \<Rightarrow> string \<Rightarrow> assistant" where
  "say_goodbye env s lang =
     (if take 2 lang = ''fr''
      then s\<lparr>tts := speak env (tts s) (''Au revoir! '' @ [CHR 0xC0] @ '' bient'' @ [CHR 0xF4] @ ''t!'')
                       ''fr'' True\<rparr>
      else s\<lparr>tts := speak env (tts s) ''Goodbye! Have a great day!'' ''en'' True\<rparr>)"

text \<open>\<open>_process_speech\<close> from the transcription on.\<close>

definition respond :: "collaborators \<Rightarrow> assistant \<Rightarrow> string \<times> string \<Rightarrow> unit outcome \<times> assistant" where
  "respond env s heard =
     (let (text, lang) = heard
      in if text = [] \<or> length (py_strip text) < 2 then (Returned (), s)
         else if py_strip (py_lower text) \<in> set exit_commands
         then (Returned (), assistant_stop (tts_world env) (say_goodbye (tts_world env) s lang))
         else if py_strip (py_lower text) \<in> set stop_speaking_commands
         then (Returned (), s\<lparr>tts := tts_stop (tts_world env) (tts s)\<rparr>)
         else
           let c1 = add_user_message (conversation s) text
                      (clock env (length (messages (conversation s))))
           in case messages_for_llm c1 of
                Inl e \<Rightarrow> (Raised e, s\<lparr>conversation := c1\<rparr>)
              | Inr ms \<Rightarrow>
                  let response = concat (stream_chat env ms);
                      c2 = add_assistant_message c1 response (clock env (length (messages c1)))
                  in (Returned (),
                      s\<lparr>conversation := c2,
                        tts := speak (tts_world env) (tts s) response lang True\<rparr>))"

text \<open>\<open>_process_speech\<close>: record, then transcribe and respond.\<close>

definition process_speech :: "collaborators \<Rightarrow> assistant \<Rightarrow> mic_event list \<Rightarrow> unit outcome \<times> assistant" where
  "process_speech env s es =
     (let s1 = s\<lparr>listening := True\<rparr>;
          (res, rec') = recorder_record (recorder s1)
                          \<lparr>max_duration = 15, on_speech_start = True, on_speech_end = True\<rparr>
                          (device_ok env) es;
          s2 = s1\<lparr>recorder := rec'\<rparr>
      in case res of
           Raised e \<Rightarrow> (Raised e, s2)
         | Blocked \<Rightarrow> (Blocked, s2)
         | Returned audio \<Rightarrow>
             let s3 = s2\<lparr>listening := False\<rparr>
             in (case audio of
                   None \<Rightarrow> (Returned (), s3)
                 | Some w \<Rightarrow> respond env s3 (transcribe env w)))"

text \<open>One press of Enter in push-to-talk mode, with what the turn it starts will meet.\<close>

record turn =
  world :: collaborators
  mic :: "mic_event list"

text \<open>The loop of \<open>run_async\<close> in push-to-talk mode. \<open>Blocked\<close>: the loop still waits for
  Enter when the presses are used up; \<open>Returned\<close>: the loop was left.\<close>

fun push_to_talk_loop :: "assistant \<Rightarrow> turn list \<Rightarrow> unit outcome \<times> assistant" where
  "push_to_talk_loop s [] = ((if running s then Blocked else Returned ()), s)"
| "push_to_talk_loop s (t # ts) =
     (if \<not> running s then (Returned (), s)
      else (case process_speech (world t) s (mic t) of
              (Returned u, s') \<Rightarrow> push_to_talk_loop s' ts
            | (other, s') \<Rightarrow> (other, s')))"





text \<open>\<open>_on_wake_word\<close>: a turn.\<close>

definition on_wake_word :: "collaborators \<Rightarrow> assistant \<Rightarrow> mic_event list \<Rightarrow> unit outcome \<times> assistant" where
  "on_wake_word env s es = process_speech env s es"

text \<open>
  The callable that \<open>run_async\<close> passes to \<open>wake_word.start\<close> is
  \<open>lambda: asyncio.create_task(self._on_wake_word())\<close>. The detector calls it on the
  audio thread, which runs no event loop, so \<open>create_task\<close> raises \<open>RuntimeError\<close> and
  no task is made: \<open>_on_wake_word\<close> does not run.
\<close>

definition assistant_on_wake :: on_wake where
  "assistant_on_wake = Raises RuntimeError"

text \<open>The wake word branch of \<open>run_async\<close>, taken when the detector is there and
  available: the detector is started with that callable and the loop sleeps while the
  assistant runs. No turn is started from it, so only the detector changes. Without an
  available detector \<open>run_async\<close> takes the push-to-talk branch instead.\<close>

definition wake_word_mode :: "assistant \<Rightarrow> ww_event list \<Rightarrow> assistant" where
  "wake_word_mode s es =
     (case wake_word s of
        None \<Rightarrow> s
      | Some d \<Rightarrow>
          if porcupine d
          then s\<lparr>wake_word := Some (listen_loop (ww_start d assistant_on_wake) es)\<rparr>
          else s)"

text \<open>Sample values: an assistant in push-to-talk mode after start-up, and collaborators
  that transcribe every recording as a given text.\<close>

definition idle_assistant :: assistant where
  "idle_assistant =
     \<lparr>running = True, listening = False, recorder = default_recorder, tts = default_tts,
      conversation = cm_init None ''You are a helpful assistant.'' 20, wake_word = None\<rparr>"

definition hearing :: "string \<Rightarrow> collaborators" where
  "hearing text =
     \<lparr>device_ok = True, transcribe = (\<lambda>w. (text, ''en'')),
      stream_chat = (\<lambda>ms. [''Sure.'']), clock = (\<lambda>n. ''2024-01-01T00:00:00''),
      tts_world = quiet_world\<rparr>"


section \<open>Properties of the conversation history\<close>

lemma cm_run_messages:
  "messages (cm_run cm calls) = messages cm @ map cm_added calls"
  unfolding cm_run_def
proof (induction calls arbitrary: cm)
  case Nil
  show ?case by simp
next
  case (Cons c cs)
  show ?case
    by (cases c) (simp_all add: Cons.IH add_user_message_def add_assistant_message_def)
qed

lemma cm_run_max_history: "max_history (cm_run cm calls) = max_history cm"
  unfolding cm_run_def
proof (induction calls arbitrary: cm)
  case Nil
  show ?case by simp
next
  case (Cons c cs)
  show ?case
    by (cases c) (simp_all add: Cons.IH add_user_message_def add_assistant_message_def)
qed

text \<open>
  With a history limit of at least one message the window is what the docstring says:
  the system prompt first, then the most recent \<open>max_history\<close> added messages in
  insertion order, \<open>max_history + 1\<close> messages at most.
\<close>

lemma messages_for_llm_positive_limit:
  assumes "sp \<noteq> []" and "1 \<le> mh"
  shows "messages_for_llm (cm_run (cm_init (Some sp) cfg mh) calls) =
           Inr (\<lparr>role = ''system'', content = sp, timestamp = None\<rparr>
                # drop (length calls - nat mh) (map cm_added calls))"
proof -
  let ?sys = "\<lparr>role = ''system'', content = sp, timestamp = None\<rparr>"
  let ?cm = "cm_run (cm_init (Some sp) cfg mh) calls"
  have ms: "messages ?cm = ?sys # map cm_added calls"
    using assms(1) by (simp add: cm_run_messages cm_init_def)
  have mh: "max_history ?cm = mh"
    by (simp add: cm_run_max_history cm_init_def)
  show ?thesis
  proof (cases "int (length calls) \<le> mh")
    case True
    then have "length calls - nat mh = 0" by linarith
    with True show ?thesis by (simp add: messages_for_llm_def ms mh)
  next
    case False
    with assms(2) have lt: "nat mh < length calls" by linarith
    define n where "n = nat (max (int (length (?sys # map cm_added calls)) + - mh) 0)"
    have n: "n = Suc (length calls - nat mh)"
      unfolding n_def using lt assms(2) by (simp add: max_def) linarith
    have "py_slice_from (?sys # map cm_added calls) (- mh) = drop n (?sys # map cm_added calls)"
      unfolding n_def using assms(2) by (simp add: py_slice_from_def)
    then have "py_slice_from (?sys # map cm_added calls) (- mh) =
                 drop (length calls - nat mh) (map cm_added calls)"
      by (simp add: n)
    with False show ?thesis by (simp add: messages_for_llm_def ms mh)
  qed
qed

text \<open>
  Claim C10 (history window of \<open>messages_for_llm\<close>): at most \<open>max_history + 1\<close>
  messages, the system prompt first, then the most recent messages. With
  \<open>max_history = 0\<close> and two added messages the code returns four messages, the system
  prompt twice: the slice \<open>_messages[-0:]\<close> is the whole list.
\<close>

theorem messages_for_llm_zero_history:
  "messages_for_llm
     (cm_run (cm_init (Some ''Be brief.'') ''cfg'' 0)
        [AddUser ''hi'' ''t1'', AddAssistant ''hello'' ''t2'']) =
   Inr [\<lparr>role = ''system'', content = ''Be brief.'', timestamp = None\<rparr>,
        \<lparr>role = ''system'', content = ''Be brief.'', timestamp = None\<rparr>,
        \<lparr>role = ''user'', content = ''hi'', timestamp = Some ''t1''\<rparr>,
        \<lparr>role = ''assistant'', content = ''hello'', timestamp = Some ''t2''\<rparr>]"
  by (simp add: messages_for_llm_def cm_run_def cm_init_def add_user_message_def
      add_assistant_message_def py_slice_from_def Let_def)

section \<open>Properties of the recorder\<close>

lemma audio_callback_abort_iff:
  "audio_callback ffs mf cb s f = CallbackAbort \<longleftrightarrow> \<not> is_recording (fst s)"
  by (simp add: audio_callback_def Let_def)

lemma run_stream_not_recording:
  "\<not> is_recording (fst s) \<Longrightarrow> run_stream ffs mf cb s es = s"
proof (induction es arbitrary: s)
  case Nil
  show ?case by simp
next
  case (Cons e es)
  show ?case
  proof (cases e)
    case (Frame f)
    with Cons.prems show ?thesis by (simp add: audio_callback_def)
  next
    case StopRequest
    have "(recorder_stop (fst s), snd s) = s"
      using Cons.prems by (cases s) (simp add: recorder_stop_def)
    with Cons StopRequest show ?thesis by simp
  qed
qed

lemma run_stream_append:
  "run_stream ffs mf cb s (es1 @ es2) = run_stream ffs mf cb (run_stream ffs mf cb s es1) es2"
proof (induction es1 arbitrary: s)
  case Nil
  show ?case by simp
next
  case (Cons e es1)
  show ?case
  proof (cases e)
    case StopRequest
    with Cons show ?thesis by simp
  next
    case (Frame f)
    show ?thesis
    proof (cases "audio_callback ffs mf cb s f")
      case CallbackAbort
      then have "\<not> is_recording (fst s)"
        by (simp add: audio_callback_abort_iff)
      with CallbackAbort Frame show ?thesis
        by (simp add: run_stream_not_recording)
    next
      case (Continue s')
      with Frame Cons show ?thesis by simp
    qed
  qed
qed

lemma speech_step:
  assumes "is_recording (fst s)" and "is_speech f" and "frame_count (snd s) + 1 < mf"
  shows "\<exists>s'. audio_callback ffs mf cb s f = Continue s' \<and>
           audio_buffer (fst s') = audio_buffer (fst s) @ [audio_bytes f] \<and>
           is_recording (fst s') \<and> speech_started (snd s') \<and> silence_frames (snd s') = 0 \<and>
           frame_count (snd s') = frame_count (snd s) + 1 \<and>
           channels (fst s') = channels (fst s) \<and> sample_rate (fst s') = sample_rate (fst s)"
  using assms
  by (cases s) (simp add: audio_callback_def on_speech_def count_frame_def report_level_def Let_def)

lemma silence_step:
  assumes "is_recording (fst s)" and "\<not> is_speech f" and "speech_started (snd s)"
  shows "\<exists>s'. audio_callback ffs mf cb s f = Continue s' \<and>
           audio_buffer (fst s') = audio_buffer (fst s) @ [audio_bytes f] \<and>
           is_recording (fst s') =
             (silence_frames (snd s) + 1 < ffs \<and> frame_count (snd s) + 1 < mf) \<and>
           speech_started (snd s') \<and>
           silence_frames (snd s') = silence_frames (snd s) + 1 \<and>
           frame_count (snd s') = frame_count (snd s) + 1 \<and>
           channels (fst s') = channels (fst s) \<and> sample_rate (fst s') = sample_rate (fst s)"
  using assms
  by (cases s) (auto simp add: audio_callback_def on_trailing_silence_def count_frame_def report_level_def Let_def)

lemma run_stream_speech:
  assumes "is_recording (fst s)" and "\<forall>f\<in>set fs. is_speech f"
    and "frame_count (snd s) + int (length fs) < mf"
  shows "audio_buffer (fst (run_stream ffs mf cb s (map Frame fs))) =
           audio_buffer (fst s) @ map audio_bytes fs \<and>
         is_recording (fst (run_stream ffs mf cb s (map Frame fs))) \<and>
         (fs \<noteq> [] \<longrightarrow> speech_started (snd (run_stream ffs mf cb s (map Frame fs))) \<and>
                     silence_frames (snd (run_stream ffs mf cb s (map Frame fs))) = 0) \<and>
         frame_count (snd (run_stream ffs mf cb s (map Frame fs))) =
           frame_count (snd s) + int (length fs) \<and>
         channels (fst (run_stream ffs mf cb s (map Frame fs))) = channels (fst s) \<and>
         sample_rate (fst (run_stream ffs mf cb s (map Frame fs))) = sample_rate (fst s)"
  using assms
proof (induction fs arbitrary: s)
  case Nil
  then show ?case by simp
next
  case (Cons f fs)
  from Cons.prems have f: "is_speech f" and c: "frame_count (snd s) + 1 < mf" by simp_all
  from speech_step [OF Cons.prems(1) f c, of ffs cb]
  obtain s' where s': "audio_callback ffs mf cb s f = Continue s'"
    "audio_buffer (fst s') = audio_buffer (fst s) @ [audio_bytes f]"
    "is_recording (fst s')" "speech_started (snd s')" "silence_frames (snd s') = 0"
    "frame_count (snd s') = frame_count (snd s) + 1"
    "channels (fst s') = channels (fst s)" "sample_rate (fst s') = sample_rate (fst s)"
    by blast
  have ih: "audio_buffer (fst (run_stream ffs mf cb s' (map Frame fs))) =
           audio_buffer (fst s') @ map audio_bytes fs \<and>
         is_recording (fst (run_stream ffs mf cb s' (map Frame fs))) \<and>
         (fs \<noteq> [] \<longrightarrow> speech_started (snd (run_stream ffs mf cb s' (map Frame fs))) \<and>
                     silence_frames (snd (run_stream ffs mf cb s' (map Frame fs))) = 0) \<and>
         frame_count (snd (run_stream ffs mf cb s' (map Frame fs))) =
           frame_count (snd s') + int (length fs) \<and>
         channels (fst (run_stream ffs mf cb s' (map Frame fs))) = channels (fst s') \<and>
         sample_rate (fst (run_stream ffs mf cb s' (map Frame fs))) = sample_rate (fst s')"
    using Cons.IH [of s'] Cons.prems s' by simp
  show ?case
  proof (cases "fs = []")
    case True
    with s' show ?thesis by simp
  next
    case False
    with ih s' show ?thesis by simp
  qed
qed


lemma run_stream_silence:
  assumes "is_recording (fst s)" and "speech_started (snd s)"
    and "\<forall>f\<in>set fs. \<not> is_speech f"
    and "silence_frames (snd s) + int (length fs) < ffs"
    and "frame_count (snd s) + int (length fs) < mf"
  shows "audio_buffer (fst (run_stream ffs mf cb s (map Frame fs))) =
           audio_buffer (fst s) @ map audio_bytes fs \<and>
         is_recording (fst (run_stream ffs mf cb s (map Frame fs))) \<and>
         speech_started (snd (run_stream ffs mf cb s (map Frame fs))) \<and>
         silence_frames (snd (run_stream ffs mf cb s (map Frame fs))) =
           silence_frames (snd s) + int (length fs) \<and>
         frame_count (snd (run_stream ffs mf cb s (map Frame fs))) =
           frame_count (snd s) + int (length fs) \<and>
         channels (fst (run_stream ffs mf cb s (map Frame fs))) = channels (fst s) \<and>
         sample_rate (fst (run_stream ffs mf cb s (map Frame fs))) = sample_rate (fst s)"
  using assms
proof (induction fs arbitrary: s)
  case Nil
  then show ?case by simp
next
  case (Cons f fs)
  from Cons.prems have f: "\<not> is_speech f" and c: "frame_count (snd s) + 1 < mf"
    and q: "silence_frames (snd s) + 1 < ffs" by simp_all
  from silence_step [OF Cons.prems(1) f Cons.prems(2), of ffs mf cb] q c
  obtain s' where s': "audio_callback ffs mf cb s f = Continue s'"
    "audio_buffer (fst s') = audio_buffer (fst s) @ [audio_bytes f]"
    "is_recording (fst s')" "speech_started (snd s')"
    "silence_frames (snd s') = silence_frames (snd s) + 1"
    "frame_count (snd s') = frame_count (snd s) + 1"
    "channels (fst s') = channels (fst s)" "sample_rate (fst s') = sample_rate (fst s)"
    by auto
  from Cons.IH [of s'] Cons.prems s' show ?case by simp
qed

lemma closing_silence_step:
  assumes "is_recording (fst s)" and "speech_started (snd s)" and "\<not> is_speech f"
    and "ffs \<le> silence_frames (snd s) + 1"
  shows "audio_buffer (fst (run_stream ffs mf cb s (Frame f # es))) =
           audio_buffer (fst s) @ [audio_bytes f] \<and>
         \<not> is_recording (fst (run_stream ffs mf cb s (Frame f # es))) \<and>
         channels (fst (run_stream ffs mf cb s (Frame f # es))) = channels (fst s) \<and>
         sample_rate (fst (run_stream ffs mf cb s (Frame f # es))) = sample_rate (fst s)"
proof -
  from silence_step [OF assms(1) assms(3) assms(2), of ffs mf cb] assms(4)
  obtain s' where s': "audio_callback ffs mf cb s f = Continue s'"
    and p: "audio_buffer (fst s') = audio_buffer (fst s) @ [audio_bytes f] \<and>
        \<not> is_recording (fst s') \<and> channels (fst s') = channels (fst s) \<and>
        sample_rate (fst s') = sample_rate (fst s)"
    by auto
  then have "run_stream ffs mf cb s' es = s'"
    by (simp add: run_stream_not_recording)
  with s' p show ?thesis by simp
qed

text \<open>Speech, then silence for at least the threshold: the segment is the speech
  frames and the first \<open>ffs\<close> silence frames.\<close>

lemma run_stream_endpointing:
  assumes rec: "is_recording (fst s)" and fresh: "snd s = init_vad"
    and sp: "\<forall>f\<in>set speech. is_speech f" and ne: "speech \<noteq> []"
    and si: "\<forall>f\<in>set silence. \<not> is_speech f"
    and n: "1 \<le> ffs" "nat ffs \<le> length silence"
    and m: "int (length speech) + ffs \<le> mf"
  shows "audio_buffer (fst (run_stream ffs mf cb s (map Frame (speech @ silence)))) =
           audio_buffer (fst s) @ map audio_bytes (speech @ take (nat ffs) silence) \<and>
         \<not> is_recording (fst (run_stream ffs mf cb s (map Frame (speech @ silence)))) \<and>
         channels (fst (run_stream ffs mf cb s (map Frame (speech @ silence)))) = channels (fst s) \<and>
         sample_rate (fst (run_stream ffs mf cb s (map Frame (speech @ silence)))) = sample_rate (fst s)"
proof -
  define k where "k = nat ffs - 1"
  define s1 where "s1 = run_stream ffs mf cb s (map Frame speech)"
  define s2 where "s2 = run_stream ffs mf cb s1 (map Frame (take k silence))"
  have k: "int k = ffs - 1" "k < length silence" using n by (simp_all add: k_def)
  have fc0: "frame_count (snd s) = 0" using fresh by (simp add: init_vad_def)
  have a1: "audio_buffer (fst s1) = audio_buffer (fst s) @ map audio_bytes speech"
    "is_recording (fst s1)" "speech_started (snd s1)" "silence_frames (snd s1) = 0"
    "frame_count (snd s1) = int (length speech)"
    "channels (fst s1) = channels (fst s)" "sample_rate (fst s1) = sample_rate (fst s)"
    using run_stream_speech [OF rec sp, of mf ffs cb] fc0 n m ne by (simp_all add: s1_def)
  have len: "length (take k silence) = k" using k by simp
  have a2: "audio_buffer (fst s2) = audio_buffer (fst s1) @ map audio_bytes (take k silence)"
    "is_recording (fst s2)" "speech_started (snd s2)" "silence_frames (snd s2) = int k"
    "channels (fst s2) = channels (fst s1)" "sample_rate (fst s2) = sample_rate (fst s1)"
    using run_stream_silence [OF a1(2) a1(3), of "take k silence" ffs mf cb] si a1 k m len
    by (auto simp add: s2_def dest: in_set_takeD)
  have split: "silence = take k silence @ (silence ! k) # drop (Suc k) silence"
    using k by (simp add: id_take_nth_drop [symmetric])
  have cl: "\<not> is_speech (silence ! k)" using si k by simp
  define s3 where
    "s3 = run_stream ffs mf cb s2 (Frame (silence ! k) # map Frame (drop (Suc k) silence))"
  have run: "run_stream ffs mf cb s (map Frame (speech @ silence)) = s3"
  proof -
    have "map Frame (speech @ silence) =
            map Frame speech @ map Frame (take k silence) @
              (Frame (silence ! k) # map Frame (drop (Suc k) silence))"
      using split by (metis list.simps(9) map_append)
    then show ?thesis by (simp only: run_stream_append s1_def s2_def s3_def)
  qed
  have tk: "take (nat ffs) silence = take k silence @ [silence ! k]"
    using k n by (simp add: k_def take_Suc_conv_app_nth [symmetric])
  have "ffs \<le> silence_frames (snd s2) + 1" using a2(4) k by simp
  from closing_silence_step [OF a2(2) a2(3) cl this, of mf cb "map Frame (drop (Suc k) silence)"]
  have a3: "audio_buffer (fst s3) = audio_buffer (fst s2) @ [audio_bytes (silence ! k)]"
    "\<not> is_recording (fst s3)" "channels (fst s3) = channels (fst s2)"
    "sample_rate (fst s3) = sample_rate (fst s2)"
    unfolding s3_def by blast+
  show ?thesis unfolding run using a3 a2 a1 tk by simp
qed

lemma run_stream_after_stop:
  "StopRequest \<in> set es \<Longrightarrow> \<not> is_recording (fst (run_stream ffs mf cb s es))"
proof (induction es arbitrary: s)
  case Nil
  then show ?case by simp
next
  case (Cons e es)
  show ?case
  proof (cases e)
    case StopRequest
    have "\<not> is_recording (fst (recorder_stop (fst s), snd s))"
      by (simp add: recorder_stop_def)
    then show ?thesis
      using StopRequest by (simp add: run_stream_not_recording)
  next
    case (Frame f)
    with Cons.prems have mem: "StopRequest \<in> set es" by simp
    show ?thesis
    proof (cases "audio_callback ffs mf cb s f")
      case CallbackAbort
      then have "\<not> is_recording (fst s)" by (simp add: audio_callback_abort_iff)
      with CallbackAbort Frame show ?thesis by simp
    next
      case (Continue s')
      then show ?thesis using Frame Cons.IH [OF mem] by simp
    qed
  qed
qed

lemma callback_counts:
  assumes "audio_callback ffs mf cb s f = Continue s'"
  shows "frame_count (snd s') = frame_count (snd s) + 1 \<and>
         (is_recording (fst s') \<longrightarrow> frame_count (snd s') < mf) \<and>
         length (audio_buffer (fst s')) \<le> Suc (length (audio_buffer (fst s)))"
  using assms
  by (cases s)
    (auto simp add: audio_callback_def on_speech_def on_trailing_silence_def count_frame_def
      report_level_def Let_def split: if_splits)

lemma run_stream_bounded:
  assumes "int (length (audio_buffer (fst s))) \<le> frame_count (snd s)"
    and "frame_count (snd s) \<le> max 1 mf"
    and "is_recording (fst s) \<longrightarrow> frame_count (snd s) < max 1 mf"
  shows "int (length (audio_buffer (fst (run_stream ffs mf cb s es)))) \<le> max 1 mf"
  using assms
proof (induction es arbitrary: s)
  case Nil
  then show ?case by simp
next
  case (Cons e es)
  show ?case
  proof (cases e)
    case StopRequest
    have "run_stream ffs mf cb (recorder_stop (fst s), snd s) es = (recorder_stop (fst s), snd s)"
      by (rule run_stream_not_recording) (simp add: recorder_stop_def)
    with StopRequest Cons.prems show ?thesis by (simp add: recorder_stop_def)
  next
    case (Frame f)
    show ?thesis
    proof (cases "audio_callback ffs mf cb s f")
      case CallbackAbort
      with Frame Cons.prems show ?thesis by simp
    next
      case (Continue s')
      then have rec: "is_recording (fst s)"
        using audio_callback_abort_iff [of ffs mf cb s f] by auto
      from callback_counts [OF Continue] Cons.prems rec
      have "int (length (audio_buffer (fst s'))) \<le> frame_count (snd s')"
        "frame_count (snd s') \<le> max 1 mf"
        "is_recording (fst s') \<longrightarrow> frame_count (snd s') < max 1 mf"
        by auto
      from Cons.IH [OF this] Frame Continue show ?thesis by simp
    qed
  qed
qed

lemma run_stream_forced_end:
  assumes "mf \<le> frame_count (snd s) + int (length (filter is_frame es))"
    and "1 \<le> length (filter is_frame es)"
  shows "\<not> is_recording (fst (run_stream ffs mf cb s es))"
  using assms
proof (induction es arbitrary: s)
  case Nil
  then show ?case by simp
next
  case (Cons e es)
  show ?case
  proof (cases e)
    case StopRequest
    then show ?thesis using run_stream_after_stop [of "e # es" ffs mf cb s] by simp
  next
    case (Frame f)
    show ?thesis
    proof (cases "audio_callback ffs mf cb s f")
      case CallbackAbort
      then have "\<not> is_recording (fst s)" by (simp add: audio_callback_abort_iff)
      with CallbackAbort Frame show ?thesis by simp
    next
      case (Continue s')
      note cc = callback_counts [OF Continue]
      show ?thesis
      proof (cases "is_recording (fst s')")
        case False
        then show ?thesis using Frame Continue by (simp add: run_stream_not_recording)
      next
        case True
        with cc have lt: "frame_count (snd s') < mf" by simp
        from Cons.prems(1) Frame cc
        have a: "mf \<le> frame_count (snd s') + int (length (filter is_frame es))"
          by simp
        with lt have b: "1 \<le> length (filter is_frame es)" by linarith
        from Cons.IH [OF a b] Frame Continue show ?thesis by simp
      qed
    qed
  qed
qed

lemma run_stream_all_silent:
  assumes "\<forall>e\<in>set es. silent_event e" and "\<not> speech_started (snd s)"
  shows "audio_buffer (fst (run_stream ffs mf cb s es)) = audio_buffer (fst s)"
  using assms
proof (induction es arbitrary: s)
  case Nil
  then show ?case by simp
next
  case (Cons e es)
  show ?case
  proof (cases e)
    case StopRequest
    with Cons show ?thesis by (simp add: recorder_stop_def)
  next
    case (Frame f)
    with Cons.prems have ns: "\<not> is_speech f" by simp
    show ?thesis
    proof (cases "audio_callback ffs mf cb s f")
      case CallbackAbort
      with Frame show ?thesis by simp
    next
      case (Continue s')
      then have "audio_buffer (fst s') = audio_buffer (fst s) \<and> \<not> speech_started (snd s')"
        using ns Cons.prems(2)
        by (cases s)
          (auto simp add: audio_callback_def count_frame_def report_level_def Let_def
            split: if_splits)
      with Cons.IH [of s'] Cons.prems Frame Continue show ?thesis by simp
    qed
  qed
qed

lemma recorder_record_started:
  assumes "\<not> is_recording r" and "frame_duration_ms r \<noteq> 0"
  shows "recorder_record r a True es =
     (let r1 = r\<lparr>is_recording := True, audio_buffer := []\<rparr>;
          r2 = fst (run_stream (frames_for_silence r) (max_frames r a) (on_speech_start a)
                      (r1\<lparr>effects := effects r1 @ [StreamOpened]\<rparr>, init_vad) es)
      in if is_recording r2 then (Blocked, r2)
         else (Returned (if audio_buffer r2 \<noteq> [] then Some (create_wav r2 (audio_buffer r2)) else None),
               (if on_speech_end a then r2\<lparr>effects := effects r2 @ [SpeechEnd]\<rparr> else r2)
                 \<lparr>is_recording := False\<rparr>))"
  using assms
  by (simp add: recorder_record_def Let_def frames_for_silence_def max_frames_def create_wav_def)

text \<open>
  Claim C2: with 30 ms frames and a silence threshold of 0.9 s the threshold is 30
  frames, and 20 speech frames followed by 35 silence frames give one returned segment of
  exactly 50 frames, the speech frames and the first 30 silence frames; the last 5
  silence frames are not appended. The maximum duration leaves room for 50 frames.
\<close>

theorem endpointing_20_speech_35_silence:
  assumes "frame_duration_ms r = 30" and "silence_duration r = 9 / 10"
    and "\<not> is_recording r" and "3 / 2 \<le> max_duration a"
    and "length speech = 20" and "\<forall>f\<in>set speech. is_speech f"
    and "length silence = 35" and "\<forall>f\<in>set silence. \<not> is_speech f"
  shows "frames_for_silence r = 30 \<and>
         fst (recorder_record r a True (map Frame (speech @ silence))) =
           Returned (Some (create_wav r (map audio_bytes (speech @ take 30 silence)))) \<and>
         audio_buffer (snd (recorder_record r a True (map Frame (speech @ silence)))) =
           map audio_bytes (speech @ take 30 silence) \<and>
         length (audio_buffer (snd (recorder_record r a True (map Frame (speech @ silence))))) = 50 \<and>
         \<not> is_recording (snd (recorder_record r a True (map Frame (speech @ silence))))"
proof -
  define r1 where "r1 = r\<lparr>is_recording := True, audio_buffer := []\<rparr>"
  define s0 where "s0 = (r1\<lparr>effects := effects r1 @ [StreamOpened]\<rparr>, init_vad)"
  define t where "t = run_stream (frames_for_silence r) (max_frames r a) (on_speech_start a) s0
                        (map Frame (speech @ silence))"
  have ffs: "frames_for_silence r = 30"
    by (simp add: frames_for_silence_def py_int_def assms(1,2))
  have "50 \<le> max_duration a * 1000 / 30" using assms(4) by simp
  then have "50 \<le> \<lfloor>max_duration a * 1000 / 30\<rfloor>" by (simp add: le_floor_iff)
  moreover have "0 \<le> max_duration a * 1000 / 30" using assms(4) by simp
  ultimately have mf: "50 \<le> max_frames r a"
    by (simp add: max_frames_def py_int_def assms(1))
  have ne: "speech \<noteq> []" using assms(5) by auto
  have t: "audio_buffer (fst t) = map audio_bytes (speech @ take 30 silence)"
    "\<not> is_recording (fst t)" "channels (fst t) = channels r" "sample_rate (fst t) = sample_rate r"
    using run_stream_endpointing [of s0 speech silence "frames_for_silence r" "max_frames r a"
        "on_speech_start a", OF _ _ assms(6) ne assms(8)] ffs mf assms(5,7)
    by (simp_all add: s0_def r1_def t_def)
  have len: "length (map audio_bytes (speech @ take 30 silence)) = 50"
    using assms(5,7) by simp
  then have nonempty: "map audio_bytes (speech @ take 30 silence) \<noteq> []" by auto
  have res: "recorder_record r a True (map Frame (speech @ silence)) =
      (Returned (Some (create_wav (fst t) (audio_buffer (fst t)))),
       (if on_speech_end a then (fst t)\<lparr>effects := effects (fst t) @ [SpeechEnd]\<rparr> else fst t)
         \<lparr>is_recording := False\<rparr>)"
    using assms(1,3) t(1,2) nonempty
    by (simp add: recorder_record_started Let_def t_def s0_def r1_def)
  have wav: "create_wav (fst t) (audio_buffer (fst t)) =
               create_wav r (map audio_bytes (speech @ take 30 silence))"
    using t by (simp add: create_wav_def)
  show ?thesis
    unfolding res wav using ffs len t(1) by simp
qed

theorem endpointing_20_speech_35_silence_witness:
  "length (audio_buffer (snd (recorder_record (default_recorder\<lparr>silence_duration := 9 / 10\<rparr>)
       \<lparr>max_duration = 15, on_speech_start = True, on_speech_end = True\<rparr> True
       (map Frame (replicate 20 speech_frame @ replicate 35 quiet_frame))))) = 50"
  using endpointing_20_speech_35_silence [of "default_recorder\<lparr>silence_duration := 9 / 10\<rparr>"
      "\<lparr>max_duration = 15, on_speech_start = True, on_speech_end = True\<rparr>"
      "replicate 20 speech_frame" "replicate 35 quiet_frame"]
  by (simp add: default_recorder_def speech_frame_def quiet_frame_def is_speech_def)

text \<open>
  Claim C3, as the code has it: a recording started on an idle recorder never collects
  more than \<open>max 1 (max_frames r a)\<close> frames, whatever the frames are classified as,
  and it has ended once that many frames were delivered, since every handled frame is
  counted. The limit is tested after the frame is handled, so one frame is collected
  even when the maximum is below one frame.
\<close>

theorem segment_length_bounded:
  assumes "\<not> is_recording r"
  shows "int (length (audio_buffer (snd (recorder_record r a dev es)))) \<le> max 1 (max_frames r a) \<and>
         (frame_duration_ms r \<noteq> 0 \<and> max 1 (max_frames r a) \<le> int (length (filter is_frame es))
            \<longrightarrow> fst (recorder_record r a dev es) \<noteq> Blocked)"
proof -
  define r1 where "r1 = r\<lparr>is_recording := True, audio_buffer := []\<rparr>"
  define s0 where "s0 = (r1\<lparr>effects := effects r1 @ [StreamOpened]\<rparr>, init_vad)"
  define t where "t = run_stream (frames_for_silence r) (max_frames r a) (on_speech_start a) s0 es"
  have bound: "int (length (audio_buffer (fst t))) \<le> max 1 (max_frames r a)"
    unfolding t_def by (rule run_stream_bounded) (simp_all add: s0_def r1_def init_vad_def)
  have fc0: "frame_count (snd s0) = 0" by (simp add: s0_def init_vad_def)
  have forced: "\<not> is_recording (fst t)"
    if "max 1 (max_frames r a) \<le> int (length (filter is_frame es))"
    unfolding t_def
    by (rule run_stream_forced_end) (use that fc0 in simp_all)
  show ?thesis
  proof (cases "frame_duration_ms r = 0")
    case True
    with assms show ?thesis by (simp add: recorder_record_def Let_def)
  next
    case False
    show ?thesis
    proof (cases dev)
      case False
      with assms show ?thesis by (simp add: recorder_record_def Let_def)
    next
      case True
      have eq: "recorder_record r a dev es =
        (if is_recording (fst t) then (Blocked, fst t)
         else (Returned (if audio_buffer (fst t) \<noteq> [] then Some (create_wav (fst t) (audio_buffer (fst t))) else None),
               (if on_speech_end a then (fst t)\<lparr>effects := effects (fst t) @ [SpeechEnd]\<rparr> else fst t)
                 \<lparr>is_recording := False\<rparr>))"
        using assms \<open>frame_duration_ms r \<noteq> 0\<close> True
        by (simp add: recorder_record_started Let_def t_def s0_def r1_def)
      show ?thesis unfolding eq using bound forced by simp
    qed
  qed
qed

theorem segment_length_bounded_witness:
  "int (length (audio_buffer (snd (recorder_record default_recorder
       \<lparr>max_duration = 9 / 100, on_speech_start = True, on_speech_end = True\<rparr> True
       (map Frame (replicate 4 speech_frame)))))) \<le> 3 \<and>
   fst (recorder_record default_recorder
       \<lparr>max_duration = 9 / 100, on_speech_start = True, on_speech_end = True\<rparr> True
       (map Frame (replicate 4 speech_frame))) \<noteq> Blocked"
  using segment_length_bounded [of default_recorder
      "\<lparr>max_duration = 9 / 100, on_speech_start = True, on_speech_end = True\<rparr>" True
      "map Frame (replicate 4 speech_frame)"]
  by (simp add: default_recorder_def max_frames_def py_int_def)

text \<open>
  Claim C3 as stated fails: with \<open>max_duration = 0\<close> the maximum is 0 frames, and one
  speech frame is collected and returned.
\<close>

theorem zero_max_duration_collects_one_frame:
  "\<not> int (length (audio_buffer (snd (recorder_record default_recorder
         \<lparr>max_duration = 0, on_speech_start = True, on_speech_end = True\<rparr> True
         [Frame speech_frame])))) \<le>
      max_frames default_recorder \<lparr>max_duration = 0, on_speech_start = True, on_speech_end = True\<rparr>"
  by (simp add: recorder_record_def default_recorder_def max_frames_def frames_for_silence_def
      py_int_def init_vad_def audio_callback_def report_level_def on_speech_def count_frame_def
      speech_frame_def is_speech_def Let_def)

text \<open>
  Claim C4, as the code has it: when no frame is classified as speech, nothing is
  appended to the buffer and no segment is returned; the result is \<open>None\<close> as soon as
  the recording ends, by a call of \<open>stop\<close> or by the maximum duration.
\<close>

theorem all_silence_never_returns_segment:
  assumes "\<not> is_recording r" and "\<forall>e\<in>set es. silent_event e"
  shows "(fst (recorder_record r a dev es) = Returned None \<or>
          fst (recorder_record r a dev es) = Blocked \<or>
          fst (recorder_record r a dev es) = Raised ZeroDivisionError) \<and>
         audio_buffer (snd (recorder_record r a dev es)) = [] \<and>
         (frame_duration_ms r \<noteq> 0 \<and>
          (StopRequest \<in> set es \<or> max 1 (max_frames r a) \<le> int (length (filter is_frame es)))
            \<longrightarrow> fst (recorder_record r a dev es) = Returned None)"
proof -
  define r1 where "r1 = r\<lparr>is_recording := True, audio_buffer := []\<rparr>"
  define s0 where "s0 = (r1\<lparr>effects := effects r1 @ [StreamOpened]\<rparr>, init_vad)"
  define t where "t = run_stream (frames_for_silence r) (max_frames r a) (on_speech_start a) s0 es"
  have empty: "audio_buffer (fst t) = []"
    using run_stream_all_silent [OF assms(2), of s0 "frames_for_silence r" "max_frames r a"
        "on_speech_start a"]
    by (simp add: t_def s0_def r1_def init_vad_def)
  have fc0: "frame_count (snd s0) = 0" by (simp add: s0_def init_vad_def)
  have forced: "\<not> is_recording (fst t)"
    if "max 1 (max_frames r a) \<le> int (length (filter is_frame es))"
    unfolding t_def
    by (rule run_stream_forced_end) (use that fc0 in simp_all)
  have stopped: "\<not> is_recording (fst t)" if "StopRequest \<in> set es"
    unfolding t_def using that by (rule run_stream_after_stop)
  show ?thesis
  proof (cases "frame_duration_ms r = 0")
    case True
    with assms show ?thesis by (simp add: recorder_record_def Let_def)
  next
    case False
    show ?thesis
    proof (cases dev)
      case False
      with assms show ?thesis by (simp add: recorder_record_def Let_def)
    next
      case True
      have eq: "recorder_record r a dev es =
        (if is_recording (fst t) then (Blocked, fst t)
         else (Returned (if audio_buffer (fst t) \<noteq> [] then Some (create_wav (fst t) (audio_buffer (fst t))) else None),
               (if on_speech_end a then (fst t)\<lparr>effects := effects (fst t) @ [SpeechEnd]\<rparr> else fst t)
                 \<lparr>is_recording := False\<rparr>))"
        using assms \<open>frame_duration_ms r \<noteq> 0\<close> True
        by (simp add: recorder_record_started Let_def t_def s0_def r1_def)
      show ?thesis unfolding eq using empty forced stopped by auto
    qed
  qed
qed

theorem all_silence_never_returns_segment_witness:
  "fst (recorder_record default_recorder
       \<lparr>max_duration = 15, on_speech_start = True, on_speech_end = True\<rparr> True
       [Frame quiet_frame, Frame quiet_frame, StopRequest]) = Returned None"
  using all_silence_never_returns_segment [of default_recorder
      "[Frame quiet_frame, Frame quiet_frame, StopRequest]"
      "\<lparr>max_duration = 15, on_speech_start = True, on_speech_end = True\<rparr>" True]
  by (simp add: default_recorder_def quiet_frame_def is_speech_def)

text \<open>
  Claim C4 as stated fails in its last part: \<open>None\<close> is returned after three silent
  frames at a maximum of three frames, with no call of \<open>stop\<close>.
\<close>

theorem cancelled_without_explicit_stop:
  "fst (recorder_record default_recorder
       \<lparr>max_duration = 9 / 100, on_speech_start = True, on_speech_end = True\<rparr> True
       [Frame quiet_frame, Frame quiet_frame, Frame quiet_frame]) = Returned None \<and>
   StopRequest \<notin> set [Frame quiet_frame, Frame quiet_frame, Frame quiet_frame]"
  by (simp add: recorder_record_def default_recorder_def max_frames_def frames_for_silence_def
      py_int_def init_vad_def audio_callback_def report_level_def count_frame_def
      quiet_frame_def is_speech_def Let_def)

text \<open>
  Claim C5, as the code has it: a frame on which the classifier raises is handled exactly
  as a frame the classifier answered with \<open>level > 0.01\<close>: speech above the threshold,
  silence otherwise. The callback aborts only when the recording has already ended.
\<close>

theorem vad_failure_falls_back_to_level:
  "audio_callback ffs mf cb s (f\<lparr>vad := None\<rparr>) =
     audio_callback ffs mf cb s (f\<lparr>vad := Some (1 / 100 < level f)\<rparr>) \<and>
   (audio_callback ffs mf cb s (f\<lparr>vad := None\<rparr>) = CallbackAbort) = (\<not> is_recording (fst s))"
  by (simp add: audio_callback_def is_speech_def report_level_def on_speech_def
      on_trailing_silence_def Let_def)

text \<open>
  Claim C5 as stated fails: a loud frame on which the classifier raises is not handled
  as a silence frame.
\<close>

theorem vad_failure_not_silence:
  "audio_callback 50 500 True (default_recorder\<lparr>is_recording := True\<rparr>, init_vad)
       loud_unclassified_frame \<noteq>
   audio_callback 50 500 True (default_recorder\<lparr>is_recording := True\<rparr>, init_vad)
       (loud_unclassified_frame\<lparr>vad := Some False\<rparr>)"
  by (simp add: audio_callback_def is_speech_def report_level_def on_speech_def
      on_trailing_silence_def count_frame_def init_vad_def default_recorder_def
      loud_unclassified_frame_def Let_def)

section \<open>Properties of the playback sink, the wake word detector and the assistant\<close>

text \<open>
  Claim C9: \<open>TextToSpeech.stop\<close> is idempotent. A second call changes nothing; after a
  call the stop flag is set, \<open>is_speaking\<close> is false and the mixer, when there is one, is
  halted; and when nothing is playing the call only sets the stop flag.
\<close>

theorem tts_stop_idempotent:
  "tts_stop env (tts_stop env s) = tts_stop env s \<and>
   tts_stop_event (tts_stop env s) \<and>
   \<not> tts_is_speaking (tts_stop env s) \<and>
   (has_pygame env \<longrightarrow> \<not> music_busy (tts_stop env s)) \<and>
   (\<not> tts_is_speaking s \<and> \<not> music_busy s \<longrightarrow> tts_stop env s = s\<lparr>tts_stop_event := True\<rparr>)"
  by (simp add: tts_stop_def)

theorem tts_stop_idempotent_witness:
  "tts_stop quiet_world (tts_stop quiet_world (default_tts\<lparr>tts_is_speaking := True, music_busy := True\<rparr>)) =
     tts_stop quiet_world (default_tts\<lparr>tts_is_speaking := True, music_busy := True\<rparr>) \<and>
   \<not> music_busy (tts_stop quiet_world (default_tts\<lparr>tts_is_speaking := True, music_busy := True\<rparr>)) \<and>
   tts_stop quiet_world default_tts = default_tts\<lparr>tts_stop_event := True\<rparr>"
  using tts_stop_idempotent [of quiet_world "default_tts\<lparr>tts_is_speaking := True, music_busy := True\<rparr>"]
    tts_stop_idempotent [of quiet_world default_tts]
  by (simp add: quiet_world_def default_tts_def)

lemma stream_dead_activations: "activations (stream_dead d es) = activations d"
proof (induction es arbitrary: d)
  case Nil
  show ?case by simp
next
  case (Cons e es)
  show ?case by (cases e) (simp_all add: Cons.IH ww_stop_def)
qed

lemma listen_loop_returning:
  assumes "\<not> ww_stop_event d" and "ww_callback d = Some Returns" and "StopListening \<notin> set es"
  shows "activations (listen_loop d es) = activations d + length (filter is_match es)"
  using assms
proof (induction es arbitrary: d)
  case Nil
  show ?case by simp
next
  case (Cons e es)
  show ?case
  proof (cases e)
    case StopListening
    with Cons.prems show ?thesis by simp
  next
    case (Block i)
    let ?d' = "if 0 \<le> i then d\<lparr>activations := Suc (activations d)\<rparr> else d"
    have step: "ww_audio_callback d i = WwContinue ?d'"
      using Cons.prems by (simp add: ww_audio_callback_def)
    have "activations (listen_loop ?d' es) = activations ?d' + length (filter is_match es)"
      using Cons.prems by (intro Cons.IH) simp_all
    with step Block show ?thesis by simp
  qed
qed

lemma listen_loop_raising:
  assumes "\<not> ww_stop_event d" and "ww_callback d = Some (Raises err)"
    and "StopListening \<notin> set es"
  shows "activations (listen_loop d es) = activations d + min 1 (length (filter is_match es))"
  using assms
proof (induction es arbitrary: d)
  case Nil
  show ?case by simp
next
  case (Cons e es)
  show ?case
  proof (cases e)
    case StopListening
    with Cons.prems show ?thesis by simp
  next
    case (Block i)
    show ?thesis
    proof (cases "0 \<le> i")
      case True
      with Cons.prems have "ww_audio_callback d i =
          WwRaised err (d\<lparr>activations := Suc (activations d)\<rparr>)"
        by (simp add: ww_audio_callback_def)
      with Block True show ?thesis by (simp add: stream_dead_activations)
    next
      case False
      with Cons.prems have "ww_audio_callback d i = WwContinue d"
        by (simp add: ww_audio_callback_def)
      moreover have "activations (listen_loop d es) =
          activations d + min 1 (length (filter is_match es))"
        using Cons.prems by (intro Cons.IH) simp_all
      ultimately show ?thesis using Block False by simp
    qed
  qed
qed

text \<open>
  Claim C6, as the code has it. Started on an available detector and not stopped, the
  keyword thread calls the activation callback once for every matching block that the
  stream delivers, and it has no pause for a turn: with a callable that returns, every
  matching block is answered; a callable that raises ends the stream at the first match,
  after one call.
\<close>

theorem wake_word_activations:
  assumes "porcupine d" and "\<not> ww_is_listening d" and "StopListening \<notin> set es"
  shows "activations (listen_loop (ww_start d cb) es) =
           activations d +
           (case cb of
              Returns \<Rightarrow> length (filter is_match es)
            | Raises err \<Rightarrow> min 1 (length (filter is_match es)))"
proof (cases cb)
  case Returns
  have "activations (listen_loop (ww_start d cb) es) =
          activations (ww_start d cb) + length (filter is_match es)"
    using assms Returns by (intro listen_loop_returning) (simp_all add: ww_start_def)
  with assms Returns show ?thesis by (simp add: ww_start_def)
next
  case (Raises err)
  have "activations (listen_loop (ww_start d cb) es) =
          activations (ww_start d cb) + min 1 (length (filter is_match es))"
    using assms Raises by (intro listen_loop_raising [of _ err]) (simp_all add: ww_start_def)
  with assms Raises show ?thesis by (simp add: ww_start_def)
qed

theorem wake_word_activations_witness:
  "activations (listen_loop (ww_start idle_detector Returns)
       [Block 0, Block (- 1), Block 0, Block 0]) = 3 \<and>
   activations (listen_loop (ww_start idle_detector assistant_on_wake)
       [Block (- 1), Block 0, Block 0, Block 0]) = 1"
  using wake_word_activations [of idle_detector "[Block 0, Block (- 1), Block 0, Block 0]" Returns]
    wake_word_activations [of idle_detector "[Block (- 1), Block 0, Block 0, Block 0]"
      assistant_on_wake]
  by (simp add: idle_detector_def assistant_on_wake_def)

text \<open>
  Claim C6 as stated fails. With a callable that returns, two matching blocks in a row,
  which no turn can complete between, call it twice. With the callable that the assistant
  passes, the first match is the only call ever made: a later match is not answered,
  although the detector still counts as listening and no turn was started (the recorder is
  untouched).
\<close>

theorem wake_word_not_once_per_match:
  "activations (listen_loop (ww_start idle_detector Returns) [Block 0, Block 0]) = 2 \<and>
   wake_word (wake_word_mode (idle_assistant\<lparr>wake_word := Some idle_detector\<rparr>)
       [Block 0, Block (- 1), Block 0]) =
     Some (idle_detector\<lparr>ww_callback := Some assistant_on_wake, ww_is_listening := True,
                         activations := 1\<rparr>) \<and>
   recorder (wake_word_mode (idle_assistant\<lparr>wake_word := Some idle_detector\<rparr>)
       [Block 0, Block (- 1), Block 0]) = default_recorder"
  by (simp add: wake_word_mode_def idle_detector_def idle_assistant_def ww_start_def
      ww_audio_callback_def assistant_on_wake_def)















text \<open>Speech followed by enough silence, through \<open>record\<close>: one segment, the speech
  frames and the first \<open>frames_for_silence\<close> silence frames.\<close>

lemma recorder_record_endpointed:
  assumes "\<not> is_recording r" and "frame_duration_ms r \<noteq> 0"
    and "\<forall>f\<in>set speech. is_speech f" and "speech \<noteq> []"
    and "\<forall>f\<in>set silence. \<not> is_speech f"
    and "1 \<le> frames_for_silence r" and "nat (frames_for_silence r) \<le> length silence"
    and "int (length speech) + frames_for_silence r \<le> max_frames r a"
  shows "fst (recorder_record r a True (map Frame (speech @ silence))) =
           Returned (Some (create_wav r
             (map audio_bytes (speech @ take (nat (frames_for_silence r)) silence))))"
proof -
  define r1 where "r1 = r\<lparr>is_recording := True, audio_buffer := []\<rparr>"
  define s0 where "s0 = (r1\<lparr>effects := effects r1 @ [StreamOpened]\<rparr>, init_vad)"
  define t where "t = run_stream (frames_for_silence r) (max_frames r a) (on_speech_start a) s0
                        (map Frame (speech @ silence))"
  have t: "audio_buffer (fst t) =
             map audio_bytes (speech @ take (nat (frames_for_silence r)) silence)"
    "\<not> is_recording (fst t)" "channels (fst t) = channels r" "sample_rate (fst t) = sample_rate r"
    using run_stream_endpointing [of s0 speech silence "frames_for_silence r" "max_frames r a"
        "on_speech_start a", OF _ _ assms(3) assms(4) assms(5) assms(6) assms(7) assms(8)]
    by (simp_all add: s0_def r1_def t_def)
  have nonempty: "map audio_bytes (speech @ take (nat (frames_for_silence r)) silence) \<noteq> []"
    using assms(4) by simp
  have res: "recorder_record r a True (map Frame (speech @ silence)) =
      (Returned (Some (create_wav (fst t) (audio_buffer (fst t)))),
       (if on_speech_end a then (fst t)\<lparr>effects := effects (fst t) @ [SpeechEnd]\<rparr> else fst t)
         \<lparr>is_recording := False\<rparr>)"
    using assms(1,2) t(1,2) nonempty
    by (simp add: recorder_record_started Let_def t_def s0_def r1_def)
  have wav: "create_wav (fst t) (audio_buffer (fst t)) =
               create_wav r (map audio_bytes (speech @ take (nat (frames_for_silence r)) silence))"
    using t by (simp add: create_wav_def)
  show ?thesis unfolding res wav by simp
qed

lemma one_word_recording:
  "fst (recorder_record default_recorder
          \<lparr>max_duration = 15, on_speech_start = True, on_speech_end = True\<rparr> True
          (map Frame ([speech_frame] @ replicate 50 quiet_frame))) =
   Returned (Some (create_wav default_recorder
                     (map audio_bytes ([speech_frame] @ replicate 50 quiet_frame))))"
proof -
  let ?a = "\<lparr>max_duration = 15, on_speech_start = True, on_speech_end = True\<rparr>"
  have ffs: "frames_for_silence default_recorder = 50"
    by (simp add: frames_for_silence_def py_int_def default_recorder_def)
  have mf: "max_frames default_recorder ?a = 500"
    by (simp add: max_frames_def py_int_def default_recorder_def)
  have "fst (recorder_record default_recorder ?a True
               (map Frame ([speech_frame] @ replicate 50 quiet_frame))) =
        Returned (Some (create_wav default_recorder
          (map audio_bytes ([speech_frame] @
             take (nat (frames_for_silence default_recorder)) (replicate 50 quiet_frame)))))"
  proof (rule recorder_record_endpointed)
    show "\<not> is_recording default_recorder" by (simp add: default_recorder_def)
    show "frame_duration_ms default_recorder \<noteq> 0" by (simp add: default_recorder_def)
    show "\<forall>f\<in>set [speech_frame]. is_speech f" by (simp add: speech_frame_def is_speech_def)
    show "[speech_frame] \<noteq> []" by simp
    show "\<forall>f\<in>set (replicate 50 quiet_frame). \<not> is_speech f"
      by (simp add: quiet_frame_def is_speech_def)
    show "1 \<le> frames_for_silence default_recorder" by (simp add: ffs)
    show "nat (frames_for_silence default_recorder) \<le> length (replicate 50 quiet_frame)"
      by (simp add: ffs)
    show "int (length [speech_frame]) + frames_for_silence default_recorder
            \<le> max_frames default_recorder ?a"
      by (simp add: ffs mf)
  qed
  then show ?thesis by (simp add: ffs)
qed

lemma respond_stop:
  "respond env s (''stop'', lang) =
     (Returned (), assistant_stop (tts_world env) (say_goodbye (tts_world env) s lang))"
  by (simp add: respond_def exit_commands_def py_strip_def py_lower_def lower_chr_def is_space_def
      Let_def)

lemma running_assistant_stop: "\<not> running (assistant_stop env s)"
  by (simp add: assistant_stop_def Let_def split: option.splits)

text \<open>The sibling branch: an utterance that only the stop-speaking list holds stops the
  playback and leaves the loop flag alone.\<close>

lemma respond_shut_up:
  "respond env s (''shut up'', lang) = (Returned (), s\<lparr>tts := tts_stop (tts_world env) (tts s)\<rparr>)"
  by (simp add: respond_def exit_commands_def stop_speaking_commands_def py_strip_def
      py_lower_def lower_chr_def is_space_def Let_def)

text \<open>
  Claim C7 (the utterance "stop" leaves the assistant usable) against the code: "stop"
  is in \<open>exit_commands\<close>, which is tested first, so the turn says goodbye and calls
  \<open>VoiceAssistant.stop\<close>; the loop flag is cleared, the push-to-talk loop is left, and
  no later press of Enter is served. The stop-speaking branch is never reached for it.
\<close>

theorem stop_utterance_ends_main_loop:
  assumes "running s"
    and "fst (recorder_record (recorder s)
                \<lparr>max_duration = 15, on_speech_start = True, on_speech_end = True\<rparr>
                (device_ok (world t)) (mic t)) = Returned (Some w)"
    and "transcribe (world t) w = (''stop'', lang)"
  shows "fst (process_speech (world t) s (mic t)) = Returned () \<and>
         \<not> running (snd (process_speech (world t) s (mic t))) \<and>
         push_to_talk_loop s (t # ts) =
           (Returned (), snd (process_speech (world t) s (mic t)))"
proof -
  obtain res r' where rr: "recorder_record (recorder s)
        \<lparr>max_duration = 15, on_speech_start = True, on_speech_end = True\<rparr>
        (device_ok (world t)) (mic t) = (res, r')"
    by (cases "recorder_record (recorder s)
        \<lparr>max_duration = 15, on_speech_start = True, on_speech_end = True\<rparr>
        (device_ok (world t)) (mic t)") simp
  with assms(2) have res: "res = Returned (Some w)" by simp
  have p: "process_speech (world t) s (mic t) =
      (Returned (), assistant_stop (tts_world (world t))
         (say_goodbye (tts_world (world t)) (s\<lparr>listening := True, recorder := r', listening := False\<rparr>) lang))"
    by (simp add: process_speech_def rr res assms(3) respond_stop)
  have nr: "\<not> running (snd (process_speech (world t) s (mic t)))"
    by (simp add: p running_assistant_stop)
  obtain u s' where us: "process_speech (world t) s (mic t) = (Returned u, s')"
    using p by simp
  with nr have "\<not> running s'" by simp
  then have "push_to_talk_loop s' ts = (Returned (), s')"
    by (cases ts) simp_all
  with us assms(1) have "push_to_talk_loop s (t # ts) = (Returned (), s')" by simp
  with us nr show ?thesis by simp
qed

theorem stop_utterance_ends_main_loop_witness:
  "push_to_talk_loop idle_assistant
     [\<lparr>world = hearing ''stop'', mic = map Frame ([speech_frame] @ replicate 50 quiet_frame)\<rparr>,
      \<lparr>world = hearing ''what time is it'', mic = map Frame ([speech_frame] @ replicate 50 quiet_frame)\<rparr>] =
   (Returned (),
    snd (process_speech (hearing ''stop'') idle_assistant
           (map Frame ([speech_frame] @ replicate 50 quiet_frame)))) \<and>
   \<not> running (snd (process_speech (hearing ''stop'') idle_assistant
           (map Frame ([speech_frame] @ replicate 50 quiet_frame))))"
  using stop_utterance_ends_main_loop [of idle_assistant
      "\<lparr>world = hearing ''stop'', mic = map Frame ([speech_frame] @ replicate 50 quiet_frame)\<rparr>"
      "create_wav default_recorder (map audio_bytes ([speech_frame] @ replicate 50 quiet_frame))"
      "''en''"
      "[\<lparr>world = hearing ''what time is it'', mic = map Frame ([speech_frame] @ replicate 50 quiet_frame)\<rparr>]"]
    one_word_recording
  by (simp add: idle_assistant_def hearing_def)

section \<open>Properties of streamed speech\<close>

lemma speak_calm:
  assumes "has_pygame env" and "has_edge_tts env"
    and "\<forall>t v. t \<noteq> [] \<longrightarrow> edge_tts env t v \<noteq> []"
    and "\<forall>k. \<not> playback_fails env k" and "\<forall>k. \<not> stop_during env k"
    and "text \<noteq> []"
  shows "speak env s text lang True =
     s\<lparr>tts_stop_event := False, tts_is_speaking := False, playbacks := Suc (playbacks s),
       music_busy := False, spoken := spoken s @ [(text, get_voice_for_language s lang)]\<rparr>"
  using assms by (simp add: speak_def synthesize_def Let_def)

lemma streaming_loop_calm:
  assumes "has_pygame env" and "has_edge_tts env"
    and "\<forall>t v. t \<noteq> [] \<longrightarrow> edge_tts env t v \<noteq> []"
    and "\<forall>k. \<not> playback_fails env k" and "\<forall>k. \<not> stop_during env k"
  shows "snd (streaming_loop env lang s buffer chunks) = Some (snd (loop_sentences buffer chunks)) \<and>
         map fst (spoken (fst (streaming_loop env lang s buffer chunks))) =
           map fst (spoken s) @ fst (loop_sentences buffer chunks)"
proof (induction chunks arbitrary: s buffer)
  case Nil
  show ?case by simp
next
  case (Cons chunk chunks)
  show ?case
  proof (cases "first_ending (buffer @ chunk)")
    case None
    with Cons.IH [of s "buffer @ chunk"] show ?thesis by simp
  next
    case (Some i)
    define sen where "sen = py_strip (take (i + 1) (buffer @ chunk))"
    define b2 where "b2 = drop (i + 1) (buffer @ chunk)"
    have step: "streaming_loop env lang s buffer (chunk # chunks) =
        (if sen \<noteq> []
         then (if tts_stop_event (speak env s sen lang True) then (speak env s sen lang True, None)
               else streaming_loop env lang (speak env s sen lang True) b2 chunks)
         else streaming_loop env lang s b2 chunks)"
      using Some by (simp add: Let_def sen_def b2_def)
    have pstep: "loop_sentences buffer (chunk # chunks) =
        ((if sen \<noteq> [] then [sen] else []) @ fst (loop_sentences b2 chunks),
         snd (loop_sentences b2 chunks))"
      using Some by (simp add: Let_def sen_def b2_def)
    show ?thesis
    proof (cases "sen = []")
      case True
      with Cons.IH [of s b2] show ?thesis unfolding step pstep by simp
    next
      case False
      define s1 where "s1 = speak env s sen lang True"
      have "s1 = s\<lparr>tts_stop_event := False, tts_is_speaking := False,
          playbacks := Suc (playbacks s), music_busy := False,
          spoken := spoken s @ [(sen, get_voice_for_language s lang)]\<rparr>"
        unfolding s1_def using assms False by (rule speak_calm)
      then have ns: "\<not> tts_stop_event s1" and sp: "map fst (spoken s1) = map fst (spoken s) @ [sen]"
        by simp_all
      from Cons.IH [of s1 b2] False ns sp
      show ?thesis unfolding step pstep s1_def [symmetric] by simp
    qed
  qed
qed

lemma speak_streaming_calm:
  assumes "has_pygame env" and "has_edge_tts env"
    and "\<forall>t v. t \<noteq> [] \<longrightarrow> edge_tts env t v \<noteq> []"
    and "\<forall>k. \<not> playback_fails env k" and "\<forall>k. \<not> stop_during env k"
  shows "new_utterances s (speak_streaming env s chunks lang) =
           fst (loop_sentences [] chunks) @
           (if py_strip (snd (loop_sentences [] chunks)) \<noteq> []
            then [py_strip (snd (loop_sentences [] chunks))] else [])"
proof -
  obtain s1 b where l: "streaming_loop env lang s [] chunks = (s1, b)"
    by (cases "streaming_loop env lang s [] chunks") simp
  from streaming_loop_calm [OF assms, of lang s "[]" chunks] l
  have b: "b = Some (snd (loop_sentences [] chunks))"
    and sp: "map fst (spoken s1) = map fst (spoken s) @ fst (loop_sentences [] chunks)"
    by simp_all
  let ?r = "py_strip (snd (loop_sentences [] chunks))"
  have drop_eq: "map fst (drop (length (spoken s)) xs) = ys"
    if "map fst xs = map fst (spoken s) @ ys" for xs :: "(string \<times> string) list" and ys
  proof -
    have "map fst (drop (length (spoken s)) xs) = drop (length (spoken s)) (map fst xs)"
      by (simp add: drop_map)
    also have "\<dots> = ys" using that by simp
    finally show ?thesis .
  qed
  show ?thesis
  proof (cases "?r = []")
    case True
    with l b have "speak_streaming env s chunks lang = s1" by (simp add: speak_streaming_def)
    with sp True show ?thesis by (simp add: new_utterances_def drop_eq)
  next
    case False
    have "speak env s1 ?r lang True = s1\<lparr>tts_stop_event := False, tts_is_speaking := False,
          playbacks := Suc (playbacks s1), music_busy := False,
          spoken := spoken s1 @ [(?r, get_voice_for_language s1 lang)]\<rparr>"
      using assms False by (rule speak_calm)
    with l b False have "map fst (spoken (speak_streaming env s chunks lang)) =
        map fst (spoken s1) @ [?r]"
      by (simp add: speak_streaming_def)
    with sp False show ?thesis by (simp add: new_utterances_def drop_eq)
  qed
qed

lemma first_ending_None:
  "first_ending xs = None \<longleftrightarrow> (\<forall>c\<in>set xs. c \<notin> set sentence_endings)"
  by (induction xs) auto

lemma first_ending_split:
  "first_ending xs = Some i \<Longrightarrow>
     \<exists>pre t rest. xs = pre @ t # rest \<and> length pre = i \<and> t \<in> set sentence_endings \<and>
        (\<forall>c\<in>set pre. c \<notin> set sentence_endings)"
proof (induction xs arbitrary: i)
  case Nil
  then show ?case by simp
next
  case (Cons c cs)
  show ?case
  proof (cases "c \<in> set sentence_endings")
    case True
    with Cons.prems have "i = 0" by simp
    with True show ?thesis by (intro exI [of _ "[]"] exI [of _ c] exI [of _ cs]) simp
  next
    case False
    with Cons.prems obtain j where j: "first_ending cs = Some j" "i = Suc j"
      by (cases "first_ending cs") auto
    from Cons.IH [OF j(1)] obtain pre t rest where
      "cs = pre @ t # rest" "length pre = j" "t \<in> set sentence_endings"
      "\<forall>c\<in>set pre. c \<notin> set sentence_endings"
      by blast
    with False j(2) show ?thesis
      by (intro exI [of _ "c # pre"] exI [of _ t] exI [of _ rest]) simp
  qed
qed

lemma first_ending_append:
  "\<forall>c\<in>set pre. c \<notin> set sentence_endings \<Longrightarrow> t \<in> set sentence_endings \<Longrightarrow>
     first_ending (pre @ t # rest) = Some (length pre)"
  by (induction pre) auto

lemma ending_not_space: "c \<in> set sentence_endings \<Longrightarrow> \<not> is_space c"
  by (auto simp add: sentence_endings_def is_space_def)

lemma filter_dropWhile_not: "filter (\<lambda>c. \<not> P c) (dropWhile P xs) = filter (\<lambda>c. \<not> P c) xs"
  by (induction xs) auto

lemma nonspace_strip:
  "filter (\<lambda>c. \<not> is_space c) (py_strip xs) = filter (\<lambda>c. \<not> is_space c) xs"
proof -
  have "filter (\<lambda>c. \<not> is_space c) (py_strip xs) =
          rev (filter (\<lambda>c. \<not> is_space c) (dropWhile is_space (rev (dropWhile is_space xs))))"
    by (simp add: py_strip_def rev_filter)
  also have "\<dots> = rev (filter (\<lambda>c. \<not> is_space c) (rev (dropWhile is_space xs)))"
    by (simp only: filter_dropWhile_not)
  also have "\<dots> = filter (\<lambda>c. \<not> is_space c) (dropWhile is_space xs)"
    by (simp add: rev_filter)
  finally show ?thesis by (simp only: filter_dropWhile_not)
qed

lemma strip_sentence:
  assumes "t \<in> set sentence_endings"
  shows "py_strip (pre @ [t]) = dropWhile is_space pre @ [t]"
proof -
  have t: "\<not> is_space t" using assms by (rule ending_not_space)
  have "dropWhile is_space (pre @ [t]) = dropWhile is_space pre @ [t]"
    using t by (induction pre) auto
  then show ?thesis using t by (simp add: py_strip_def)
qed

lemma loop_sentences_Cons_None:
  "first_ending (buffer @ chunk) = None \<Longrightarrow>
     loop_sentences buffer (chunk # chunks) = loop_sentences (buffer @ chunk) chunks"
  by simp

lemma loop_sentences_Cons_Some:
  assumes "buffer @ chunk = pre @ t # rest" and "t \<in> set sentence_endings"
    and "\<forall>c\<in>set pre. c \<notin> set sentence_endings"
  shows "loop_sentences buffer (chunk # chunks) =
           ((dropWhile is_space pre @ [t]) # fst (loop_sentences rest chunks),
            snd (loop_sentences rest chunks))"
proof -
  have fe: "first_ending (buffer @ chunk) = Some (length pre)"
    unfolding assms(1) using assms(3,2) by (rule first_ending_append)
  have tk: "take (length pre + 1) (buffer @ chunk) = pre @ [t]"
    and dr: "drop (length pre + 1) (buffer @ chunk) = rest"
    unfolding assms(1) by simp_all
  have "loop_sentences buffer (chunk # chunks) =
      (let sentence = py_strip (take (length pre + 1) (buffer @ chunk));
           r = loop_sentences (drop (length pre + 1) (buffer @ chunk)) chunks
       in ((if sentence \<noteq> [] then [sentence] else []) @ fst r, snd r))"
    using fe by (simp add: Let_def)
  then show ?thesis
    unfolding tk dr by (simp add: strip_sentence [OF assms(2)] Let_def)
qed

lemma loop_sentences_cases:
  obtains (none) "first_ending (buffer @ chunk) = None"
      "loop_sentences buffer (chunk # chunks) = loop_sentences (buffer @ chunk) chunks"
  | (some) pre t rest where "buffer @ chunk = pre @ t # rest" "t \<in> set sentence_endings"
      "\<forall>c\<in>set pre. c \<notin> set sentence_endings"
      "loop_sentences buffer (chunk # chunks) =
           ((dropWhile is_space pre @ [t]) # fst (loop_sentences rest chunks),
            snd (loop_sentences rest chunks))"
proof (cases "first_ending (buffer @ chunk)")
  case None
  then show ?thesis using none loop_sentences_Cons_None by blast
next
  case (Some i)
  from first_ending_split [OF Some] obtain pre t rest where
    p: "buffer @ chunk = pre @ t # rest" "t \<in> set sentence_endings"
    "\<forall>c\<in>set pre. c \<notin> set sentence_endings"
    by blast
  from some [OF p loop_sentences_Cons_Some [OF p]] show ?thesis .
qed

lemma loop_sentences_nonspace:
  "filter (\<lambda>c. \<not> is_space c) (concat (fst (loop_sentences buffer chunks)) @ snd (loop_sentences buffer chunks)) =
   filter (\<lambda>c. \<not> is_space c) (buffer @ concat chunks)"
  supply loop_sentences.simps(2) [simp del]
proof (induction chunks arbitrary: buffer)
  case Nil
  show ?case by simp
next
  case (Cons chunk chunks)
  show ?case
  proof (cases rule: loop_sentences_cases [of buffer chunk chunks])
    case none
    with Cons.IH [of "buffer @ chunk"] show ?thesis by simp
  next
    case (some pre t rest)
    have "filter (\<lambda>c. \<not> is_space c) (buffer @ concat (chunk # chunks)) =
          filter (\<lambda>c. \<not> is_space c) ((buffer @ chunk) @ concat chunks)" by simp
    also have "\<dots> = filter (\<lambda>c. \<not> is_space c) (pre @ [t]) @
                      filter (\<lambda>c. \<not> is_space c) (rest @ concat chunks)"
      unfolding some(1) by simp
    finally show ?thesis
      using Cons.IH [of rest] by (simp add: some(4) filter_dropWhile_not)
  qed
qed

lemma loop_sentences_one_ending:
  "\<forall>u\<in>set (fst (loop_sentences buffer chunks)). first_ending u = Some (length u - 1)"
  supply loop_sentences.simps(2) [simp del]
proof (induction chunks arbitrary: buffer)
  case Nil
  show ?case by simp
next
  case (Cons chunk chunks)
  show ?case
  proof (cases rule: loop_sentences_cases [of buffer chunk chunks])
    case none
    with Cons.IH [of "buffer @ chunk"] show ?thesis by simp
  next
    case (some pre t rest)
    have "\<forall>c\<in>set (dropWhile is_space pre). c \<notin> set sentence_endings"
      using some(3) by (meson set_dropWhileD)
    from first_ending_append [OF this some(2), of "[]"]
    have "first_ending (dropWhile is_space pre @ [t]) = Some (length (dropWhile is_space pre @ [t]) - 1)"
      by simp
    with Cons.IH [of rest] show ?thesis by (simp add: some(4))
  qed
qed

lemma loop_sentences_length: "length (fst (loop_sentences buffer chunks)) \<le> length chunks"
  supply loop_sentences.simps(2) [simp del]
proof (induction chunks arbitrary: buffer)
  case Nil
  show ?case by simp
next
  case (Cons chunk chunks)
  show ?case
  proof (cases rule: loop_sentences_cases [of buffer chunk chunks])
    case none
    with Cons.IH [of "buffer @ chunk"] show ?thesis by simp
  next
    case (some pre t rest)
    with Cons.IH [of rest] show ?thesis by simp
  qed
qed

lemma cut_sentences_no_ending:
  "\<forall>c\<in>set xs. c \<notin> set sentence_endings \<Longrightarrow>
     cut_sentences acc (xs @ ys) = cut_sentences (acc @ xs) ys"
  by (induction xs arbitrary: acc) auto

lemma spec_sentences_plain:
  assumes "\<forall>c\<in>set xs. c \<notin> set sentence_endings"
  shows "spec_sentences xs = (if py_strip xs \<noteq> [] then [py_strip xs] else [])"
proof -
  have "cut_sentences [] (xs @ []) = cut_sentences ([] @ xs) []"
    using assms by (rule cut_sentences_no_ending)
  then show ?thesis by (simp add: spec_sentences_def)
qed

lemma spec_sentences_first:
  assumes "\<forall>c\<in>set pre. c \<notin> set sentence_endings" and "t \<in> set sentence_endings"
  shows "spec_sentences (pre @ t # ys) = (dropWhile is_space pre @ [t]) # spec_sentences ys"
proof -
  have "cut_sentences [] (pre @ t # ys) = cut_sentences ([] @ pre) (t # ys)"
    using assms(1) by (rule cut_sentences_no_ending)
  then have "cut_sentences [] (pre @ t # ys) = (pre @ [t]) # cut_sentences [] ys"
    using assms(2) by simp
  then show ?thesis
    by (simp add: spec_sentences_def strip_sentence [OF assms(2)])
qed

lemma loop_sentences_exact:
  assumes "\<forall>c\<in>set buffer. c \<notin> set sentence_endings"
    and "\<forall>chunk\<in>set chunks. length (filter (\<lambda>c. c \<in> set sentence_endings) chunk) \<le> 1"
  shows "spec_sentences (buffer @ concat chunks) =
           fst (loop_sentences buffer chunks) @
           (if py_strip (snd (loop_sentences buffer chunks)) \<noteq> []
            then [py_strip (snd (loop_sentences buffer chunks))] else [])"
  using assms
  supply loop_sentences.simps(2) [simp del]
proof (induction chunks arbitrary: buffer)
  case Nil
  then show ?case by (simp add: spec_sentences_plain)
next
  case (Cons chunk chunks)
  from Cons.prems(2) have one: "length (filter (\<lambda>c. c \<in> set sentence_endings) chunk) \<le> 1"
    and others: "\<forall>chunk\<in>set chunks. length (filter (\<lambda>c. c \<in> set sentence_endings) chunk) \<le> 1"
    by simp_all
  have nb: "filter (\<lambda>c. c \<in> set sentence_endings) buffer = []"
    using Cons.prems(1) by (simp add: filter_empty_conv)
  show ?case
  proof (cases rule: loop_sentences_cases [of buffer chunk chunks])
    case none
    then have "\<forall>c\<in>set (buffer @ chunk). c \<notin> set sentence_endings"
      by (simp only: first_ending_None)
    from Cons.IH [OF this others] none(2) show ?thesis by simp
  next
    case (some pre t rest)
    have "filter (\<lambda>c. c \<in> set sentence_endings) (buffer @ chunk) =
          filter (\<lambda>c. c \<in> set sentence_endings) chunk"
      using nb by simp
    moreover have "filter (\<lambda>c. c \<in> set sentence_endings) (pre @ t # rest) =
          t # filter (\<lambda>c. c \<in> set sentence_endings) rest"
      using some(2,3) by (simp add: filter_empty_conv)
    ultimately have "length (t # filter (\<lambda>c. c \<in> set sentence_endings) rest) \<le> 1"
      using one some(1) by simp
    then have "filter (\<lambda>c. c \<in> set sentence_endings) rest = []" by simp
    then have nr: "\<forall>c\<in>set rest. c \<notin> set sentence_endings"
      by (simp add: filter_empty_conv)
    have "buffer @ concat (chunk # chunks) = pre @ t # (rest @ concat chunks)"
      using some(1) by (metis append.assoc append_Cons concat.simps(2))
    then have "spec_sentences (buffer @ concat (chunk # chunks)) =
        (dropWhile is_space pre @ [t]) # spec_sentences (rest @ concat chunks)"
      by (simp only: spec_sentences_first [OF some(3) some(2)])
    with Cons.IH [OF nr others] show ?thesis by (simp add: some(4))
  qed
qed

text \<open>
  Claim C8, as the code has it. When synthesis and playback work and nothing interrupts,
  the utterances \<open>speak_streaming\<close> hands to playback are, up to white space, the
  streamed text in its order; every utterance but the last ends at the first sentence
  ending it contains; at most one utterance is cut per chunk, and the remainder is spoken
  last. When no chunk holds more than one sentence ending, the utterances are exactly the
  text cut after every sentence ending.
\<close>

theorem speak_streaming_in_order:
  assumes "has_pygame env" and "has_edge_tts env"
    and "\<forall>t v. t \<noteq> [] \<longrightarrow> edge_tts env t v \<noteq> []"
    and "\<forall>k. \<not> playback_fails env k" and "\<forall>k. \<not> stop_during env k"
  shows "filter (\<lambda>c. \<not> is_space c) (concat (new_utterances s (speak_streaming env s chunks lang))) =
           filter (\<lambda>c. \<not> is_space c) (concat chunks) \<and>
         (\<forall>u\<in>set (butlast (new_utterances s (speak_streaming env s chunks lang))).
            first_ending u = Some (length u - 1)) \<and>
         length (new_utterances s (speak_streaming env s chunks lang)) \<le> length chunks + 1 \<and>
         ((\<forall>chunk\<in>set chunks. length (filter (\<lambda>c. c \<in> set sentence_endings) chunk) \<le> 1) \<longrightarrow>
            new_utterances s (speak_streaming env s chunks lang) = spec_sentences (concat chunks))"
proof -
  define us where "us = fst (loop_sentences [] chunks)"
  define b where "b = snd (loop_sentences [] chunks)"
  define fin where "fin = (if py_strip b \<noteq> [] then [py_strip b] else [])"
  have new: "new_utterances s (speak_streaming env s chunks lang) = us @ fin"
    unfolding us_def b_def fin_def using assms by (rule speak_streaming_calm)
  have "filter (\<lambda>c. \<not> is_space c) (concat fin) = filter (\<lambda>c. \<not> is_space c) b"
    using nonspace_strip [of b] by (auto simp add: fin_def)
  then have "filter (\<lambda>c. \<not> is_space c) (concat (us @ fin)) =
               filter (\<lambda>c. \<not> is_space c) (concat us @ b)"
    by simp
  also have "\<dots> = filter (\<lambda>c. \<not> is_space c) ([] @ concat chunks)"
    unfolding us_def b_def by (rule loop_sentences_nonspace)
  finally have order: "filter (\<lambda>c. \<not> is_space c) (concat (us @ fin)) =
      filter (\<lambda>c. \<not> is_space c) (concat chunks)"
    by simp
  have cut: "\<forall>u\<in>set us. first_ending u = Some (length u - 1)"
    unfolding us_def by (rule loop_sentences_one_ending)
  have "set (butlast (us @ fin)) \<subseteq> set us"
  proof (cases "py_strip b = []")
    case True
    then show ?thesis using in_set_butlastD by (fastforce simp add: fin_def)
  next
    case False
    then show ?thesis by (simp add: fin_def butlast_append)
  qed
  with cut have early: "\<forall>u\<in>set (butlast (us @ fin)). first_ending u = Some (length u - 1)"
    by blast
  have "length us \<le> length chunks"
    unfolding us_def by (rule loop_sentences_length)
  then have len: "length (us @ fin) \<le> length chunks + 1"
    by (simp add: fin_def)
  have exact: "us @ fin = spec_sentences (concat chunks)"
    if "\<forall>chunk\<in>set chunks. length (filter (\<lambda>c. c \<in> set sentence_endings) chunk) \<le> 1"
    using loop_sentences_exact [of "[]" chunks] that by (simp add: us_def b_def fin_def)
  show ?thesis unfolding new using order early len exact by blast
qed

theorem speak_streaming_in_order_witness:
  "new_utterances default_tts
     (speak_streaming quiet_world default_tts [''Hi'', '' there. How'', '' are you?'', '' Bye''] ''en'') =
   spec_sentences (concat [''Hi'', '' there. How'', '' are you?'', '' Bye''])"
  using speak_streaming_in_order [of quiet_world default_tts
      "[''Hi'', '' there. How'', '' are you?'', '' Bye'']" "''en''"]
  by (simp add: quiet_world_def sentence_endings_def)

text \<open>
  Claim C8 as stated fails: the scan stops at the first sentence ending of a chunk, so a
  chunk with three sentences is spoken as the first sentence and, at the end of the
  stream, the other two as one utterance.
\<close>

theorem speak_streaming_leaves_sentences_joined:
  "new_utterances default_tts (speak_streaming quiet_world default_tts [''A.B.C.''] ''en'') =
     [''A.'', ''B.C.''] \<and>
   spec_sentences ''A.B.C.'' = [''A.'', ''B.'', ''C.'']"
  by (simp add: new_utterances_def speak_streaming_def speak_def synthesize_def
      get_voice_for_language_def quiet_world_def default_tts_def spec_sentences_def
      sentence_endings_def py_strip_def is_space_def Let_def)

end
